theory Spec2Isabelle
  imports Complex_Main "HOL-Library.AList" "HOL-Library.Sublist" "HOL-Library.Multiset"
begin

section \<open>Values and exceptions\<close>

text \<open>
  The pipeline state of \<^verbatim>\<open>pipeline_state.py\<close> is whatever \<^verbatim>\<open>json.load\<close> returns:
  a schema-less JSON value. Objects are Python dicts, modelled as association lists
  (insertion order kept, lookup by key); JSON null is Python's \<^verbatim>\<open>None\<close>. Numbers are
  kept as integers: the functions below only ask of a number whether it is zero and
  otherwise treat every number alike.
\<close>

datatype json =
    JNull
  | JBool bool
  | JNum int
  | JStr string
  | JList "json list"
  | JObj "(string \<times> json) list"

text \<open>The Python exception classes that the modelled code can raise or catch.\<close>

datatype py_exc =
    JSONDecodeError
  | IOError
  | UnicodeDecodeError
  | KeyError
  | TypeError
  | AttributeError
  | ZeroDivisionError
  | FileNotFoundError
  | ValueError
  | OtherException

type_synonym state = "(string \<times> json) list"

text \<open>
  \<^verbatim>\<open>x in c\<close> for a string \<^verbatim>\<open>x\<close>: element equality on a list, substring test on a
  string, key membership on a dict; \<^verbatim>\<open>None\<close>, booleans and numbers are not iterable
  and raise \<^verbatim>\<open>TypeError\<close>.
\<close>

fun py_in :: "string \<Rightarrow> json \<Rightarrow> py_exc + bool" where
  "py_in x (JList xs) = Inr (JStr x \<in> set xs)"
| "py_in x (JStr s) = Inr (sublist x s)"
| "py_in x (JObj d) = Inr (x \<in> fst ` set d)"
| "py_in x JNull = Inl TypeError"
| "py_in x (JBool b) = Inl TypeError"
| "py_in x (JNum n) = Inl TypeError"

text \<open>Python truthiness, as used by \<^verbatim>\<open>if completed:\<close>.\<close>

fun truthy :: "json \<Rightarrow> bool" where
  "truthy JNull = False"
| "truthy (JBool b) = b"
| "truthy (JNum n) = (n \<noteq> 0)"
| "truthy (JStr s) = (s \<noteq> [])"
| "truthy (JList xs) = (xs \<noteq> [])"
| "truthy (JObj d) = (d \<noteq> [])"

fun is_JStr :: "json \<Rightarrow> bool" where
  "is_JStr (JStr s) = True"
| "is_JStr v = False"

text \<open>
  \<^verbatim>\<open>', '.join(c)\<close>: the result is only printed, so the model keeps whether the call
  raises. It iterates a string (characters), a dict (keys, always strings) or a list,
  whose items must all be strings; anything else is not iterable.
\<close>

fun join_raises :: "json \<Rightarrow> bool" where
  "join_raises (JStr s) = False"
| "join_raises (JObj d) = False"
| "join_raises (JList xs) = (\<not> list_all is_JStr xs)"
| "join_raises v = True"

section \<open>Phase state store (\<^verbatim>\<open>pipeline_state.py\<close>)\<close>

text \<open>
  What reading \<^verbatim>\<open>config.PIPELINE_STATE_FILE\<close> yields when the file exists:
  \<^verbatim>\<open>open\<close> may fail with an \<^verbatim>\<open>IOError\<close>; \<^verbatim>\<open>json.load\<close> first decodes the bytes as
  UTF-8 (\<^verbatim>\<open>UnicodeDecodeError\<close>, a \<^verbatim>\<open>ValueError\<close>, on invalid bytes), then parses the
  text (\<^verbatim>\<open>json.JSONDecodeError\<close> on text that is not JSON), and otherwise returns the
  parsed value. The state file of the file system is \<open>None\<close> when absent.
\<close>

datatype file_read =
    OpenFails
  | InvalidUtf8
  | InvalidJson
  | Parses json

type_synonym state_file = "file_read option"

definition json_load :: "file_read \<Rightarrow> py_exc + json" where
  "json_load f = (case f of
       OpenFails \<Rightarrow> Inl IOError
     | InvalidUtf8 \<Rightarrow> Inl UnicodeDecodeError
     | InvalidJson \<Rightarrow> Inl JSONDecodeError
     | Parses v \<Rightarrow> Inr v)"

definition empty_state :: state where
  "empty_state = [(''completed_phases'', JList []), (''phase_data'', JObj [])]"

text \<open>\<^verbatim>\<open>d.get(k, default)\<close> on a dict.\<close>

definition dict_get :: "state \<Rightarrow> string \<Rightarrow> json \<Rightarrow> json" where
  "dict_get d k dflt = (case map_of d k of None \<Rightarrow> dflt | Some v \<Rightarrow> v)"

text \<open>
  The body of the \<^verbatim>\<open>try\<close> block of \<^verbatim>\<open>load_state\<close> once \<^verbatim>\<open>json.load\<close> has returned
  \<open>v\<close>: \<^verbatim>\<open>state.get\<close> exists on dicts only, and a truthy \<^verbatim>\<open>completed\<close> is joined for
  the log line.
\<close>

definition load_report :: "json \<Rightarrow> py_exc + state" where
  "load_report v = (case v of
       JObj d \<Rightarrow>
         (let completed = dict_get d ''completed_phases'' (JList [])
          in if truthy completed \<and> join_raises completed then Inl TypeError else Inr d)
     | _ \<Rightarrow> Inl AttributeError)"

text \<open>
  \<^verbatim>\<open>load_state\<close>: the handler is \<^verbatim>\<open>except (json.JSONDecodeError, IOError)\<close>; every
  other exception leaves the function.
\<close>

definition load_state :: "state_file \<Rightarrow> py_exc + state" where
  "load_state fs = (case fs of
       None \<Rightarrow> Inr empty_state
     | Some f \<Rightarrow>
         (case (case json_load f of Inl e \<Rightarrow> Inl e | Inr v \<Rightarrow> load_report v) of
            Inl e \<Rightarrow> (if e = JSONDecodeError \<or> e = IOError then Inr empty_state else Inl e)
          | Inr d \<Rightarrow> Inr d))"

text \<open>
  \<^verbatim>\<open>save_state\<close> dumps the whole state over the state file. All values of the model
  are JSON, so \<^verbatim>\<open>json.dump\<close> does not raise; reading the file back parses to the value
  written. A failure of the operating system while writing (no space, no permission) is
  an exception that ends the run and is not modelled.
\<close>

definition save_state :: "state \<Rightarrow> state_file" where
  "save_state st = Some (Parses (JObj st))"

text \<open>\<^verbatim>\<open>is_completed\<close>: a defaulting lookup, then \<^verbatim>\<open>in\<close>.\<close>

definition is_completed :: "state \<Rightarrow> string \<Rightarrow> py_exc + bool" where
  "is_completed st phase_name = py_in phase_name (dict_get st ''completed_phases'' (JList []))"

text \<open>
  \<^verbatim>\<open>state["completed_phases"].append(phase_name)\<close> when the name is not in it:
  direct indexing (\<^verbatim>\<open>KeyError\<close>), \<^verbatim>\<open>not in\<close>, and \<^verbatim>\<open>append\<close>, which only lists have.
\<close>

definition add_phase :: "state \<Rightarrow> string \<Rightarrow> py_exc + state" where
  "add_phase st phase_name = (case map_of st ''completed_phases'' of
       None \<Rightarrow> Inl KeyError
     | Some c \<Rightarrow>
         (case py_in phase_name c of
            Inl e \<Rightarrow> Inl e
          | Inr True \<Rightarrow> Inr st
          | Inr False \<Rightarrow>
              (case c of
                 JList xs \<Rightarrow>
                   Inr (AList.update ''completed_phases'' (JList (xs @ [JStr phase_name])) st)
               | _ \<Rightarrow> Inl AttributeError)))"

text \<open>
  \<^verbatim>\<open>state["phase_data"][phase_name] = phase_data\<close> when the data is not \<^verbatim>\<open>None\<close>:
  item assignment with a string key works on a dict only.
\<close>

definition store_data :: "state \<Rightarrow> string \<Rightarrow> json \<Rightarrow> py_exc + state" where
  "store_data st phase_name phase_data =
     (if phase_data = JNull then Inr st
      else (case map_of st ''phase_data'' of
              None \<Rightarrow> Inl KeyError
            | Some (JObj d) \<Rightarrow>
                Inr (AList.update ''phase_data'' (JObj (AList.update phase_name phase_data d)) st)
            | Some _ \<Rightarrow> Inl TypeError))"

text \<open>
  \<^verbatim>\<open>mark_completed\<close> returns the mutated in-memory state together with the state file
  it has written; an exception leaves the file as it was.
\<close>

definition mark_completed :: "state \<Rightarrow> string \<Rightarrow> json \<Rightarrow> py_exc + (state \<times> state_file)" where
  "mark_completed st phase_name phase_data =
     (case add_phase st phase_name of
        Inl e \<Rightarrow> Inl e
      | Inr st1 \<Rightarrow>
          (case store_data st1 phase_name phase_data of
             Inl e \<Rightarrow> Inl e
           | Inr st2 \<Rightarrow> Inr (st2, save_state st2)))"

section \<open>Pipeline driver (\<^verbatim>\<open>main.py\<close>)\<close>

text \<open>
  What a run of the driver can touch: the state file, everything else outside the process
  (\<open>ext\<close>: the crawled pages, screenshots, output files), and, as an observer, the list
  of phase bodies that have been called so far, in order.
\<close>

record 'w world =
  sfile :: state_file
  ext :: 'w
  calls :: "string list"

text \<open>
  The work of a phase between its \<^verbatim>\<open>is_completed\<close> test and its final
  \<^verbatim>\<open>mark_completed\<close> (\<^verbatim>\<open>crawler.run_crawler()\<close>, \<^verbatim>\<open>webpage_manager.generate_all()\<close>,
  the inline loops of phases 2 to 5) is opaque: given the outside world it either raises
  or yields the summary that the phase passes to \<^verbatim>\<open>mark_completed\<close>, and it changes the
  outside world. It is never handed the state dict and does not write the state file.
\<close>

type_synonym 'w bodies = "string \<Rightarrow> 'w \<Rightarrow> (py_exc + json) \<times> 'w"

type_synonym 'w outcome = "(py_exc + state) \<times> 'w world"

definition do_mark :: "state \<Rightarrow> string \<Rightarrow> json \<Rightarrow> 'w world \<Rightarrow> 'w outcome" where
  "do_mark st phase d w = (case mark_completed st phase d of
       Inl e \<Rightarrow> (Inl e, w)
     | Inr (st', f) \<Rightarrow> (Inr st', w\<lparr>sfile := f\<rparr>))"

definition call_body :: "'w bodies \<Rightarrow> state \<Rightarrow> string \<Rightarrow> 'w world \<Rightarrow> 'w outcome" where
  "call_body body st phase w = (case body phase (ext w) of
       (r, x) \<Rightarrow>
         (let w' = w\<lparr>ext := x, calls := calls w @ [phase]\<rparr>
          in case r of Inl e \<Rightarrow> (Inl e, w') | Inr d \<Rightarrow> do_mark st phase d w'))"

text \<open>
  Phases 0 and 1 have a configuration switch (\<^verbatim>\<open>RUN_CRAWLER\<close>, \<^verbatim>\<open>RUN_SYNTH_GEN\<close>): a
  disabled phase is marked completed with \<^verbatim>\<open>{"skipped": True}\<close> and its body is not
  called.
\<close>

definition switched_phase :: "'w bodies \<Rightarrow> string \<Rightarrow> bool \<Rightarrow> state \<Rightarrow> 'w world \<Rightarrow> 'w outcome" where
  "switched_phase body phase enabled st w = (case is_completed st phase of
       Inl e \<Rightarrow> (Inl e, w)
     | Inr True \<Rightarrow> (Inr st, w)
     | Inr False \<Rightarrow>
         (if \<not> enabled then do_mark st phase (JObj [(''skipped'', JBool True)]) w
          else call_body body st phase w))"

definition plain_phase :: "'w bodies \<Rightarrow> string \<Rightarrow> state \<Rightarrow> 'w world \<Rightarrow> 'w outcome" where
  "plain_phase body phase st w = (case is_completed st phase of
       Inl e \<Rightarrow> (Inl e, w)
     | Inr True \<Rightarrow> (Inr st, w)
     | Inr False \<Rightarrow> call_body body st phase w)"

record config =
  RUN_CRAWLER :: bool
  RUN_SYNTH_GEN :: bool

definition phase0_crawl :: "config \<Rightarrow> 'w bodies \<Rightarrow> state \<Rightarrow> 'w world \<Rightarrow> 'w outcome" where
  "phase0_crawl cfg body = switched_phase body ''phase0_crawl'' (RUN_CRAWLER cfg)"

definition phase1_synth :: "config \<Rightarrow> 'w bodies \<Rightarrow> state \<Rightarrow> 'w world \<Rightarrow> 'w outcome" where
  "phase1_synth cfg body = switched_phase body ''phase1_synth'' (RUN_SYNTH_GEN cfg)"

definition phase2_prompts :: "'w bodies \<Rightarrow> state \<Rightarrow> 'w world \<Rightarrow> 'w outcome" where
  "phase2_prompts body = plain_phase body ''phase2_prompts''"

definition phase3_history :: "'w bodies \<Rightarrow> state \<Rightarrow> 'w world \<Rightarrow> 'w outcome" where
  "phase3_history body = plain_phase body ''phase3_history''"

definition phase4_render :: "'w bodies \<Rightarrow> state \<Rightarrow> 'w world \<Rightarrow> 'w outcome" where
  "phase4_render body = plain_phase body ''phase4_render''"

definition phase5_metadata :: "'w bodies \<Rightarrow> state \<Rightarrow> 'w world \<Rightarrow> 'w outcome" where
  "phase5_metadata body = plain_phase body ''phase5_metadata''"

text \<open>Statement sequencing: an exception of the earlier statement skips the later one.\<close>

definition and_then :: "'w outcome \<Rightarrow> (state \<Rightarrow> 'w world \<Rightarrow> 'w outcome) \<Rightarrow> 'w outcome" where
  "and_then r f = (case r of (Inl e, w) \<Rightarrow> (Inl e, w) | (Inr st, w) \<Rightarrow> f st w)"

text \<open>
  \<^verbatim>\<open>main\<close>: load the state once, then the six phases in order. (Logging and timing are
  left out.)
\<close>

definition main :: "config \<Rightarrow> 'w bodies \<Rightarrow> 'w world \<Rightarrow> 'w outcome" where
  "main cfg body w = (case load_state (sfile w) of
       Inl e \<Rightarrow> (Inl e, w)
     | Inr st \<Rightarrow>
         and_then (and_then (and_then (and_then (and_then
           (phase0_crawl cfg body st w)
           (phase1_synth cfg body))
           (phase2_prompts body))
           (phase3_history body))
           (phase4_render body))
           (phase5_metadata body))"

definition PHASES :: "string list" where
  "PHASES = [''phase0_crawl'', ''phase1_synth'', ''phase2_prompts'', ''phase3_history'',
     ''phase4_render'', ''phase5_metadata'']"

text \<open>Two runs of the process in a row, the second finding the world the first left.\<close>

definition run_twice :: "config \<Rightarrow> 'w bodies \<Rightarrow> 'w world \<Rightarrow> 'w outcome \<times> 'w outcome" where
  "run_twice cfg body w =
     (let r1 = main cfg body w; r2 = main cfg body (snd r1) in (r1, r2))"

text \<open>The state file records the phase: a fresh process loads it and finds it completed.\<close>

definition recorded :: "state_file \<Rightarrow> string \<Rightarrow> bool" where
  "recorded f phase = (case load_state f of
       Inl e \<Rightarrow> False
     | Inr st \<Rightarrow> is_completed st phase = Inr True)"

text \<open>
  The six calls of \<^verbatim>\<open>main\<close> as one loop over \<open>PHASES\<close>, for the proofs: a phase without
  a switch is a switched phase that is always enabled.
\<close>

definition phase_enabled :: "config \<Rightarrow> string \<Rightarrow> bool" where
  "phase_enabled cfg p =
     (if p = ''phase0_crawl'' then RUN_CRAWLER cfg
      else if p = ''phase1_synth'' then RUN_SYNTH_GEN cfg
      else True)"

fun run_phases :: "config \<Rightarrow> 'w bodies \<Rightarrow> string list \<Rightarrow> state \<Rightarrow> 'w world \<Rightarrow> 'w outcome" where
  "run_phases cfg body [] st w = (Inr st, w)"
| "run_phases cfg body (p # ps) st w =
     (case switched_phase body p (phase_enabled cfg p) st w of
        (Inl e, w') \<Rightarrow> (Inl e, w')
      | (Inr st', w') \<Rightarrow> run_phases cfg body ps st' w')"

text \<open>
  A state that \<^verbatim>\<open>load_state\<close> gives back unchanged after \<^verbatim>\<open>save_state\<close> has written it:
  the states a run works with, since every one of them comes from \<^verbatim>\<open>load_state\<close> and
  is then only changed by \<^verbatim>\<open>mark_completed\<close>.
\<close>

definition loadable :: "state \<Rightarrow> bool" where
  "loadable st = (load_state (save_state st) = Inr st)"

section \<open>Checkpoints (\<^verbatim>\<open>Training/train.py\<close>, \<^verbatim>\<open>deploy/webinject_train/train.py\<close>)\<close>

text \<open>
  The checkpoint directory is a map from paths to file contents. \<^verbatim>\<open>torch.save\<close> and
  \<^verbatim>\<open>torch.load\<close> are library code: \<open>torch_dumps\<close> is the byte string that
  \<^verbatim>\<open>torch.save\<close> writes for a checkpoint dict and \<open>torch_load\<close> what \<^verbatim>\<open>torch.load\<close>
  followed by the field reads of \<^verbatim>\<open>load_checkpoint\<close> makes of a file (an exception on
  a file that does not unpickle or lacks a key). In a checkpoint, \<open>blob\<close> stands for the
  model, optimizer and scheduler state dicts, the loss and the timestamp.
\<close>

type_synonym path = string
type_synonym bytes = string
type_synonym fsys = "path \<Rightarrow> bytes option"

record 'm checkpoint =
  epoch :: int
  blob :: 'm

text \<open>
  Writing \<open>b\<close> to \<open>p\<close> creates or truncates the file and then extends it; a process killed
  while writing leaves one of these file systems behind. The last one holds all of \<open>b\<close>.
\<close>

definition torch_save_states :: "bytes \<Rightarrow> path \<Rightarrow> fsys \<Rightarrow> fsys list" where
  "torch_save_states b p fs = map (\<lambda>k. fs(p \<mapsto> take k b)) [0..<Suc (length b)]"

text \<open>\<^verbatim>\<open>os.replace(src, dst)\<close>: one atomic rename.\<close>

definition os_replace :: "path \<Rightarrow> path \<Rightarrow> fsys \<Rightarrow> py_exc + fsys" where
  "os_replace src dst fs = (case fs src of
       None \<Rightarrow> Inl FileNotFoundError
     | Some c \<Rightarrow> if src = dst then Inr fs else Inr ((fs(dst \<mapsto> c))(src := None)))"

text \<open>
  \<^verbatim>\<open>save_checkpoint\<close>, as the list of every file system a kill can leave behind, in the
  order they arise: before the call, during and after \<^verbatim>\<open>torch.save(state, tmp_path)\<close>,
  and after \<^verbatim>\<open>os.replace(tmp_path, path)\<close>.
\<close>

definition save_checkpoint_states ::
  "('m checkpoint \<Rightarrow> bytes) \<Rightarrow> path \<Rightarrow> 'm \<Rightarrow> int \<Rightarrow> fsys \<Rightarrow> fsys list" where
  "save_checkpoint_states torch_dumps path m ep fs =
     (let state = \<lparr>epoch = ep, blob = m\<rparr>;
          tmp_path = path @ ''.tmp'';
          written = torch_save_states (torch_dumps state) tmp_path fs
      in fs # written @
           (case os_replace tmp_path path (last written) of Inl e \<Rightarrow> [] | Inr fs' \<Rightarrow> [fs']))"

definition save_checkpoint ::
  "('m checkpoint \<Rightarrow> bytes) \<Rightarrow> path \<Rightarrow> 'm \<Rightarrow> int \<Rightarrow> fsys \<Rightarrow> py_exc + fsys" where
  "save_checkpoint torch_dumps path m ep fs =
     (let state = \<lparr>epoch = ep, blob = m\<rparr>;
          tmp_path = path @ ''.tmp''
      in os_replace tmp_path path (last (torch_save_states (torch_dumps state) tmp_path fs)))"

text \<open>\<^verbatim>\<open>Trainer._save_checkpoint\<close> of the deployed copy: the same three statements.\<close>

definition trainer_save_checkpoint_states ::
  "('m checkpoint \<Rightarrow> bytes) \<Rightarrow> path \<Rightarrow> 'm \<Rightarrow> int \<Rightarrow> fsys \<Rightarrow> fsys list" where
  "trainer_save_checkpoint_states torch_dumps path m ep fs =
     (let state = \<lparr>epoch = ep, blob = m\<rparr>;
          tmp_path = path @ ''.tmp'';
          written = torch_save_states (torch_dumps state) tmp_path fs
      in fs # written @
           (case os_replace tmp_path path (last written) of Inl e \<Rightarrow> [] | Inr fs' \<Rightarrow> [fs']))"

definition load_checkpoint ::
  "(bytes \<Rightarrow> py_exc + 'm checkpoint) \<Rightarrow> bytes \<Rightarrow> py_exc + (int \<times> 'm)" where
  "load_checkpoint torch_load b = (case torch_load b of
       Inl e \<Rightarrow> Inl e
     | Inr ck \<Rightarrow> Inr (epoch ck, blob ck))"

section \<open>Checkpointed job runner (\<^verbatim>\<open>train_one_monitor\<close>)\<close>

record train_config =
  NUM_EPOCHS :: int
  SAVE_INTERVAL :: int

text \<open>
  The loop \<^verbatim>\<open>for epoch in range(start_epoch, NUM_EPOCHS)\<close> over the list of its epochs.
  \<open>step\<close> is one epoch of training (opaque: it raises or yields the new training state).
  The result is the exception that ended the loop, if any, the epochs that were started,
  in order, and the checkpoint directory. \<open>ckpt_path\<close> and \<open>epoch_path\<close> are the results
  of \<^verbatim>\<open>get_checkpoint_path\<close> and \<^verbatim>\<open>get_epoch_checkpoint_path\<close>.
\<close>

fun train_epochs ::
  "train_config \<Rightarrow> ('m checkpoint \<Rightarrow> bytes) \<Rightarrow> (int \<Rightarrow> 'm \<Rightarrow> py_exc + 'm) \<Rightarrow> path \<Rightarrow> (int \<Rightarrow> path)
     \<Rightarrow> int list \<Rightarrow> 'm \<Rightarrow> int list \<Rightarrow> fsys \<Rightarrow> py_exc option \<times> int list \<times> fsys" where
  "train_epochs cfg torch_dumps step ckpt_path epoch_path [] m started fs = (None, started, fs)"
| "train_epochs cfg torch_dumps step ckpt_path epoch_path (ep # rest) m started fs =
     (case step ep m of
        Inl e \<Rightarrow> (Some e, started @ [ep], fs)
      | Inr m' \<Rightarrow>
          if SAVE_INTERVAL cfg = 0 then (Some ZeroDivisionError, started @ [ep], fs)
          else if (ep + 1) mod SAVE_INTERVAL cfg = 0 then
            (case save_checkpoint torch_dumps ckpt_path m' ep fs of
               Inl e \<Rightarrow> (Some e, started @ [ep], fs)
             | Inr fs1 \<Rightarrow>
                 if (ep + 1) mod 10 = 0 then
                   (case save_checkpoint torch_dumps (epoch_path (ep + 1)) m' ep fs1 of
                      Inl e \<Rightarrow> (Some e, started @ [ep], fs1)
                    | Inr fs2 \<Rightarrow>
                        train_epochs cfg torch_dumps step ckpt_path epoch_path rest m'
                          (started @ [ep]) fs2)
                 else train_epochs cfg torch_dumps step ckpt_path epoch_path rest m'
                        (started @ [ep]) fs1)
          else train_epochs cfg torch_dumps step ckpt_path epoch_path rest m' (started @ [ep]) fs)"

text \<open>
  \<^verbatim>\<open>train_one_monitor\<close>: no work without the LMDB or with an empty dataset; otherwise
  resume after the epoch stored in the latest checkpoint, if that file exists.
\<close>

definition train_one_monitor ::
  "train_config \<Rightarrow> (bytes \<Rightarrow> py_exc + 'm checkpoint) \<Rightarrow> ('m checkpoint \<Rightarrow> bytes)
     \<Rightarrow> (int \<Rightarrow> 'm \<Rightarrow> py_exc + 'm) \<Rightarrow> path \<Rightarrow> (int \<Rightarrow> path) \<Rightarrow> bool \<Rightarrow> nat \<Rightarrow> 'm \<Rightarrow> fsys
     \<Rightarrow> py_exc option \<times> int list \<times> fsys" where
  "train_one_monitor cfg torch_load torch_dumps step ckpt_path epoch_path lmdb_exists dataset_len m0 fs =
     (if \<not> lmdb_exists then (None, [], fs)
      else if dataset_len = 0 then (None, [], fs)
      else
        (case (case fs ckpt_path of
                 None \<Rightarrow> Inr (0, m0)
               | Some b \<Rightarrow>
                   (case load_checkpoint torch_load b of
                      Inl e \<Rightarrow> Inl e
                    | Inr (ep, m) \<Rightarrow> Inr (ep + 1, m))) of
           Inl e \<Rightarrow> (Some e, [], fs)
         | Inr (start_epoch, m) \<Rightarrow>
             if start_epoch \<ge> NUM_EPOCHS cfg then (None, [], fs)
             else train_epochs cfg torch_dumps step ckpt_path epoch_path
                    [start_epoch..NUM_EPOCHS cfg - 1] m [] fs))"

section \<open>Process supervisor (\<^verbatim>\<open>crawler.download_page\<close>)\<close>

text \<open>
  What one attempt does, as far as \<^verbatim>\<open>download_page\<close> can tell: \<^verbatim>\<open>Popen\<close> raises (the
  process was not started), \<^verbatim>\<open>proc.wait\<close> times out, \<^verbatim>\<open>proc.wait\<close> raises something
  else while the worker is still running, or the process exits with a return code and
  leaves an output file that exists or not, of some size.
\<close>

datatype attempt_outcome =
    PopenRaises py_exc
  | WaitTimesOut
  | WaitRaises py_exc
  | Exits int bool nat

text \<open>
  What the supervisor does, in order: start attempt \<open>n\<close>, kill the worker's process tree,
  kill its own process group, sleep.
\<close>

datatype event = Attempt int | KillTree | KillOwnGroup | Sleep nat

text \<open>
  \<^verbatim>\<open>_kill_proc_tree(proc)\<close> on a worker that is still running. On Windows the worker was
  started with \<^verbatim>\<open>CREATE_NEW_PROCESS_GROUP\<close> and \<^verbatim>\<open>taskkill /F /T\<close> ends it and its
  descendants. Elsewhere \<^verbatim>\<open>Popen\<close> is called with \<^verbatim>\<open>creationflags=0\<close> and neither a new
  session nor a new process group, so the worker is in the process group of the caller,
  and \<^verbatim>\<open>os.killpg(os.getpgid(proc.pid), signal.SIGKILL)\<close> kills that group: the worker,
  and with it the Python process that runs \<^verbatim>\<open>download_page\<close> and all its threads. The
  result is the event and whether the caller is still alive.
\<close>

definition kill_proc_tree :: "bool \<Rightarrow> event \<times> bool" where
  "kill_proc_tree is_windows = (if is_windows then (KillTree, True) else (KillOwnGroup, False))"

text \<open>
  The attempts of \<^verbatim>\<open>download_page\<close>. The result is \<open>Some\<close> of the value returned, or
  \<open>None\<close> when the process has killed itself and so never returns, and the events so far.
\<close>

fun attempts ::
  "bool \<Rightarrow> int \<Rightarrow> nat \<Rightarrow> (int \<Rightarrow> attempt_outcome) \<Rightarrow> int list \<Rightarrow> event list
     \<Rightarrow> bool option \<times> event list" where
  "attempts is_windows MAX_RETRIES REQUEST_DELAY outcome [] tr = (Some False, tr)"
| "attempts is_windows MAX_RETRIES REQUEST_DELAY outcome (attempt # rest) tr =
     (let pause = (if attempt < MAX_RETRIES then [Sleep REQUEST_DELAY] else [])
      in case outcome attempt of
           PopenRaises e \<Rightarrow>
             if e = FileNotFoundError then (Some False, tr @ [Attempt attempt])
             else attempts is_windows MAX_RETRIES REQUEST_DELAY outcome rest
                    (tr @ [Attempt attempt] @ pause)
         | WaitTimesOut \<Rightarrow>
             if snd (kill_proc_tree is_windows) then
               attempts is_windows MAX_RETRIES REQUEST_DELAY outcome rest
                 (tr @ [Attempt attempt, fst (kill_proc_tree is_windows)] @ pause)
             else (None, tr @ [Attempt attempt, fst (kill_proc_tree is_windows)])
         | WaitRaises e \<Rightarrow>
             if e = FileNotFoundError then (Some False, tr @ [Attempt attempt])
             else if snd (kill_proc_tree is_windows) then
               attempts is_windows MAX_RETRIES REQUEST_DELAY outcome rest
                 (tr @ [Attempt attempt, fst (kill_proc_tree is_windows)] @ pause)
             else (None, tr @ [Attempt attempt, fst (kill_proc_tree is_windows)])
         | Exits returncode output_exists file_size \<Rightarrow>
             if returncode = 0 \<and> output_exists \<and> file_size > 100
             then (Some True, tr @ [Attempt attempt])
             else attempts is_windows MAX_RETRIES REQUEST_DELAY outcome rest
                    (tr @ [Attempt attempt] @ pause))"

text \<open>
  \<^verbatim>\<open>download_page\<close>: \<^verbatim>\<open>for attempt in range(1, config.MAX_RETRIES + 1)\<close>;
  \<open>is_windows\<close> is \<^verbatim>\<open>_IS_WINDOWS\<close>.
\<close>

definition download_page ::
  "bool \<Rightarrow> int \<Rightarrow> nat \<Rightarrow> (int \<Rightarrow> attempt_outcome) \<Rightarrow> bool option \<times> event list" where
  "download_page is_windows MAX_RETRIES REQUEST_DELAY outcome =
     attempts is_windows MAX_RETRIES REQUEST_DELAY outcome [1..MAX_RETRIES] []"

text \<open>An attempt that fails in one of the transient ways: timeout, bad exit, bad output.\<close>

fun transient_failure :: "attempt_outcome \<Rightarrow> bool" where
  "transient_failure WaitTimesOut = True"
| "transient_failure (Exits returncode output_exists file_size) =
     (\<not> (returncode = 0 \<and> output_exists \<and> file_size > 100))"
| "transient_failure (PopenRaises e) = False"
| "transient_failure (WaitRaises e) = False"

text \<open>
  An attempt that fails and leaves the loop running, so that the next attempt of the
  budget is made: a bad exit or bad output, a launch error other than a missing
  executable, and, where killing the worker does not kill the caller, a timeout or
  another error of \<^verbatim>\<open>proc.wait\<close>.
\<close>

fun proceeds :: "bool \<Rightarrow> attempt_outcome \<Rightarrow> bool" where
  "proceeds is_windows WaitTimesOut = is_windows"
| "proceeds is_windows (WaitRaises e) = (is_windows \<and> e \<noteq> FileNotFoundError)"
| "proceeds is_windows (PopenRaises e) = (e \<noteq> FileNotFoundError)"
| "proceeds is_windows (Exits returncode output_exists file_size) =
     (\<not> (returncode = 0 \<and> output_exists \<and> file_size > 100))"

fun is_Attempt :: "event \<Rightarrow> bool" where
  "is_Attempt (Attempt n) = True"
| "is_Attempt ev = False"

fun is_Sleep :: "event \<Rightarrow> bool" where
  "is_Sleep (Sleep n) = True"
| "is_Sleep ev = False"

section \<open>Bounded task scheduler (\<^verbatim>\<open>crawler.run_crawler\<close>)\<close>

text \<open>
  A task is a category, the index of the URL within the category and the URL; file name
  and output path are made from category and index. \<open>present category idx\<close> says that
  the output file already exists with more than 100 bytes. The statistics are the dict
  from category to its \<^verbatim>\<open>success\<close> and \<^verbatim>\<open>fail\<close> counts. The URL mapping, which does not
  enter the statistics, is left out.
\<close>

type_synonym task = "string \<times> nat \<times> string"
type_synonym stats = "(string \<times> (nat \<times> nat)) list"

text \<open>\<^verbatim>\<open>stats[cat]["success"] += 1\<close> and \<^verbatim>\<open>stats[cat]["fail"] += 1\<close>.\<close>

definition bump :: "string \<Rightarrow> bool \<Rightarrow> stats \<Rightarrow> py_exc + stats" where
  "bump cat ok stats = (case map_of stats cat of
       None \<Rightarrow> Inl KeyError
     | Some (s, f) \<Rightarrow> Inr (AList.update cat (if ok then (Suc s, f) else (s, Suc f)) stats))"

fun collect_category ::
  "(string \<Rightarrow> nat \<Rightarrow> bool) \<Rightarrow> string \<Rightarrow> (nat \<times> string) list \<Rightarrow> stats \<times> task list \<times> nat
     \<Rightarrow> py_exc + (stats \<times> task list \<times> nat)" where
  "collect_category present category [] acc = Inr acc"
| "collect_category present category ((idx, url) # rest) (stats, tasks, skipped) =
     (if present category idx then
        (case bump category True stats of
           Inl e \<Rightarrow> Inl e
         | Inr stats' \<Rightarrow> collect_category present category rest (stats', tasks, Suc skipped))
      else collect_category present category rest (stats, tasks @ [(category, idx, url)], skipped))"

text \<open>
  The first loop of \<^verbatim>\<open>run_crawler\<close>: for every category, reset its counts, then count
  every target whose file is present as a success and queue the others.
\<close>

fun collect ::
  "(string \<Rightarrow> string list) \<Rightarrow> (string \<Rightarrow> nat \<Rightarrow> bool) \<Rightarrow> string list \<Rightarrow> stats \<times> task list \<times> nat
     \<Rightarrow> py_exc + (stats \<times> task list \<times> nat)" where
  "collect get_target_urls present [] acc = Inr acc"
| "collect get_target_urls present (category # rest) (stats, tasks, skipped) =
     (case collect_category present category (enumerate 0 (get_target_urls category))
             (AList.update category (0, 0) stats, tasks, skipped) of
        Inl e \<Rightarrow> Inl e
      | Inr acc \<Rightarrow> collect get_target_urls present rest acc)"

text \<open>
  What \<^verbatim>\<open>future.result()\<close> does for a submitted task: raise an exception that left the
  worker thread, return what \<^verbatim>\<open>download_page\<close> returned, or nothing at all, when the
  worker has killed the process group of the pool.
\<close>

datatype future_outcome = FutureRaises py_exc | FutureReturns bool | ProcessKilled

text \<open>
  The worker \<^verbatim>\<open>_do_download\<close> of a task calls \<^verbatim>\<open>download_page\<close>. \<open>worker task\<close> is
  what the task meets: an exception that \<^verbatim>\<open>download_page\<close> does not catch, or the
  outcomes of the attempts of its download.
\<close>

definition do_download ::
  "bool \<Rightarrow> int \<Rightarrow> nat \<Rightarrow> (task \<Rightarrow> py_exc + (int \<Rightarrow> attempt_outcome)) \<Rightarrow> task \<Rightarrow> future_outcome" where
  "do_download is_windows MAX_RETRIES REQUEST_DELAY worker task = (case worker task of
       Inl e \<Rightarrow> FutureRaises e
     | Inr outcome \<Rightarrow>
         (case fst (download_page is_windows MAX_RETRIES REQUEST_DELAY outcome) of
            None \<Rightarrow> ProcessKilled
          | Some ok \<Rightarrow> FutureReturns ok))"

text \<open>
  The loop over \<^verbatim>\<open>as_completed(futures)\<close>, over the tasks in the order in which their
  futures complete. The future of a worker that has killed the process group never
  completes: the process, and the loop with it, ends there and returns nothing
  (\<open>None\<close>), whatever was counted before.
\<close>

fun aggregate ::
  "(task \<Rightarrow> future_outcome) \<Rightarrow> task list \<Rightarrow> stats \<times> nat \<Rightarrow> (py_exc + (stats \<times> nat)) option" where
  "aggregate result [] acc = Some (Inr acc)"
| "aggregate result ((cat, idx, url) # rest) (stats, completed) =
     (case result (cat, idx, url) of
        ProcessKilled \<Rightarrow> None
      | FutureRaises e \<Rightarrow>
          (case bump cat False stats of
             Inl e' \<Rightarrow> Some (Inl e')
           | Inr stats' \<Rightarrow> aggregate result rest (stats', Suc completed))
      | FutureReturns ok \<Rightarrow>
          (case (if ok then bump cat True stats else bump cat False stats) of
             Inl e' \<Rightarrow> Some (Inl e')
           | Inr stats' \<Rightarrow> aggregate result rest (stats', Suc completed)))"

text \<open>
  \<^verbatim>\<open>run_crawler\<close> with \<open>W\<close> = \<^verbatim>\<open>config.CONCURRENT_DOWNLOADS\<close>; \<^verbatim>\<open>ThreadPoolExecutor\<close>
  rejects a pool size below one. \<open>order\<close> is the completion order of the submitted tasks.
  The result is \<open>None\<close> when the process was killed and so returned nothing.
\<close>

definition run_crawler ::
  "string list \<Rightarrow> int \<Rightarrow> bool \<Rightarrow> int \<Rightarrow> nat \<Rightarrow> (string \<Rightarrow> string list) \<Rightarrow> (string \<Rightarrow> nat \<Rightarrow> bool)
     \<Rightarrow> (task \<Rightarrow> py_exc + (int \<Rightarrow> attempt_outcome)) \<Rightarrow> task list \<Rightarrow> (py_exc + stats) option" where
  "run_crawler DOMAINS W is_windows MAX_RETRIES REQUEST_DELAY get_target_urls present worker order =
     (case collect get_target_urls present DOMAINS ([], [], 0) of
        Inl e \<Rightarrow> Some (Inl e)
      | Inr (stats, tasks, skipped) \<Rightarrow>
          if tasks = [] then Some (Inr stats)
          else if W \<le> 0 then Some (Inl ValueError)
          else (case aggregate (do_download is_windows MAX_RETRIES REQUEST_DELAY worker) order
                       (stats, 0) of
                  None \<Rightarrow> None
                | Some (Inl e) \<Rightarrow> Some (Inl e)
                | Some (Inr (stats', completed)) \<Rightarrow> Some (Inr stats')))"



section \<open>Interactive gate (\<^verbatim>\<open>crawler._wait_for_captcha\<close>)\<close>

text \<open>
  \<open>check_fn k\<close> is what the \<open>k\<close>-th call of \<^verbatim>\<open>check_fn(driver)\<close> returns, counting from
  0. \<open>elapsed n\<close> is the value of \<^verbatim>\<open>time.time() - start\<close> that the loop body computes
  after \<open>n\<close> calls of \<^verbatim>\<open>time.sleep(2)\<close>: wall-clock seconds, which include the sleeps and
  everything else that takes time. The loop returns its verdict and the number of
  times it has slept. Nothing in the code bounds the clock, so the loop is a function
  that may not return (\<open>None\<close>).
\<close>

partial_function (option) wait_loop ::
  "(nat \<Rightarrow> bool) \<Rightarrow> (nat \<Rightarrow> real) \<Rightarrow> int \<Rightarrow> nat \<Rightarrow> (bool \<times> nat) option" where
  "wait_loop check_fn elapsed timeout n =
     (if check_fn (Suc n) then
        (if elapsed n > real_of_int timeout then Some (False, n)
         else wait_loop check_fn elapsed timeout (Suc n))
      else Some (True, n))"

definition wait_for_captcha ::
  "int \<Rightarrow> (nat \<Rightarrow> bool) \<Rightarrow> (nat \<Rightarrow> real) \<Rightarrow> int option \<Rightarrow> (bool \<times> nat) option" where
  "wait_for_captcha CAPTCHA_WAIT_TIMEOUT check_fn elapsed timeout_arg =
     (let timeout = (case timeout_arg of None \<Rightarrow> CAPTCHA_WAIT_TIMEOUT | Some t \<Rightarrow> t)
      in if \<not> check_fn 0 then Some (True, 0) else wait_loop check_fn elapsed timeout 0)"

text \<open>
  A clock that moves forward: no time has passed before \<^verbatim>\<open>start\<close> was taken, and every
  \<^verbatim>\<open>time.sleep(2)\<close> takes at least two seconds.
\<close>

definition clock_advances :: "(nat \<Rightarrow> real) \<Rightarrow> bool" where
  "clock_advances elapsed = (0 \<le> elapsed 0 \<and> (\<forall>n. elapsed n + 2 \<le> elapsed (Suc n)))"

section \<open>Properties of the phase state store\<close>

lemma loadable_iff:
  "loadable st \<longleftrightarrow>
     \<not> (truthy (dict_get st ''completed_phases'' (JList []))
        \<and> join_raises (dict_get st ''completed_phases'' (JList [])))"
  by (auto simp: loadable_def load_state_def save_state_def json_load_def load_report_def Let_def)

lemma loadable_empty_state: "loadable empty_state"
  by (simp add: loadable_iff empty_state_def dict_get_def)

lemma load_state_loadable: "load_state f = Inr st \<Longrightarrow> loadable st"
  by (auto simp: loadable_iff load_state_def json_load_def load_report_def Let_def
        empty_state_def dict_get_def
      split: option.splits file_read.splits json.splits sum.splits if_splits)

lemma add_phase_in: "add_phase st p = Inr st' \<Longrightarrow> is_completed st' p = Inr True"
  by (auto simp: add_phase_def is_completed_def dict_get_def update_conv'
      split: option.splits sum.splits bool.splits json.splits if_splits)

lemma add_phase_loadable: "loadable st \<Longrightarrow> add_phase st p = Inr st' \<Longrightarrow> loadable st'"
  by (auto simp: loadable_iff add_phase_def is_completed_def dict_get_def update_conv'
      split: option.splits sum.splits bool.splits json.splits if_splits)

lemma store_data_completed:
  "store_data st p d = Inr st' \<Longrightarrow> map_of st' ''completed_phases'' = map_of st ''completed_phases''"
  by (auto simp: store_data_def update_conv' split: option.splits json.splits if_splits)

lemma store_data_stored:
  "store_data st p d = Inr st' \<Longrightarrow> d \<noteq> JNull \<Longrightarrow>
     \<exists>pd. map_of st' ''phase_data'' = Some (JObj pd) \<and> map_of pd p = Some d"
  by (auto simp: store_data_def update_conv' split: option.splits json.splits if_splits)

lemma store_data_is_completed:
  "store_data st p d = Inr st' \<Longrightarrow> is_completed st' q = is_completed st q"
  by (simp add: is_completed_def dict_get_def store_data_completed)

lemma store_data_loadable: "store_data st p d = Inr st' \<Longrightarrow> loadable st' = loadable st"
  by (simp add: loadable_iff dict_get_def store_data_completed)

lemma mark_completed_file: "mark_completed st p d = Inr (st', f) \<Longrightarrow> f = save_state st'"
  by (auto simp: mark_completed_def split: sum.splits)

lemma mark_completed_in: "mark_completed st p d = Inr (st', f) \<Longrightarrow> is_completed st' p = Inr True"
  by (auto simp: mark_completed_def store_data_is_completed add_phase_in split: sum.splits)

lemma mark_completed_loadable:
  "loadable st \<Longrightarrow> mark_completed st p d = Inr (st', f) \<Longrightarrow> loadable st'"
  by (auto simp: mark_completed_def store_data_loadable add_phase_loadable split: sum.splits)

lemma mark_completed_stored:
  "mark_completed st p d = Inr (st', f) \<Longrightarrow> d \<noteq> JNull \<Longrightarrow>
     \<exists>pd. map_of st' ''phase_data'' = Some (JObj pd) \<and> map_of pd p = Some d"
  by (auto simp: mark_completed_def split: sum.splits dest: store_data_stored)

lemma load_state_absent: "load_state None = Inr empty_state"
  by (simp add: load_state_def)

lemma load_state_invalid_json: "load_state (Some InvalidJson) = Inr empty_state"
  by (simp add: load_state_def json_load_def)

lemma load_state_open_fails: "load_state (Some OpenFails) = Inr empty_state"
  by (simp add: load_state_def json_load_def)

lemma add_phase_mono:
  "add_phase st p = Inr st' \<Longrightarrow> is_completed st q = Inr True \<Longrightarrow> is_completed st' q = Inr True"
  by (auto simp: add_phase_def is_completed_def dict_get_def update_conv'
      split: option.splits sum.splits bool.splits json.splits if_splits)

lemma mark_completed_mono:
  "mark_completed st p d = Inr (st', f) \<Longrightarrow> is_completed st q = Inr True \<Longrightarrow>
     is_completed st' q = Inr True"
  by (auto simp: mark_completed_def store_data_is_completed add_phase_mono split: sum.splits)

text \<open>What \<^verbatim>\<open>mark_completed\<close> changes in the state, key by key.\<close>

lemma add_phase_list:
  "add_phase st p = Inr st' \<Longrightarrow> map_of st ''completed_phases'' = Some (JList xs) \<Longrightarrow>
     map_of st' ''completed_phases''
       = Some (JList (if JStr p \<in> set xs then xs else xs @ [JStr p]))"
  by (auto simp: add_phase_def update_conv' split: if_splits)

lemma add_phase_not_list:
  "add_phase st p = Inr st' \<Longrightarrow> \<forall>xs. map_of st ''completed_phases'' \<noteq> Some (JList xs) \<Longrightarrow>
     st' = st"
  by (auto simp: add_phase_def split: option.splits sum.splits bool.splits json.splits)

lemma add_phase_other:
  "add_phase st p = Inr st' \<Longrightarrow> k \<noteq> ''completed_phases'' \<Longrightarrow> map_of st' k = map_of st k"
  by (auto simp: add_phase_def update_conv'
      split: option.splits sum.splits bool.splits json.splits)

lemma update_present_keys: "map_of al k = Some v \<Longrightarrow> map fst (AList.update k v' al) = map fst al"
  by (induction al) (auto split: if_splits)

lemma add_phase_keys: "add_phase st p = Inr st' \<Longrightarrow> map fst st' = map fst st"
  by (auto simp: add_phase_def update_present_keys
      split: option.splits sum.splits bool.splits json.splits)

lemma store_data_null: "store_data st p JNull = Inr st' \<Longrightarrow> st' = st"
  by (simp add: store_data_def)

lemma store_data_update:
  "store_data st p d = Inr st' \<Longrightarrow> d \<noteq> JNull \<Longrightarrow>
     \<exists>old. map_of st ''phase_data'' = Some (JObj old)
       \<and> map_of st' ''phase_data'' = Some (JObj (AList.update p d old))"
  by (auto simp: store_data_def update_conv' split: option.splits json.splits if_splits)

lemma store_data_other:
  "store_data st p d = Inr st' \<Longrightarrow> k \<noteq> ''phase_data'' \<Longrightarrow> map_of st' k = map_of st k"
  by (auto simp: store_data_def update_conv' split: option.splits json.splits if_splits)

lemma store_data_keys: "store_data st p d = Inr st' \<Longrightarrow> map fst st' = map fst st"
  by (auto simp: store_data_def update_present_keys split: option.splits json.splits if_splits)

lemma mark_completed_steps:
  "mark_completed st p d = Inr (st', f) \<Longrightarrow>
     \<exists>st1. add_phase st p = Inr st1 \<and> store_data st1 p d = Inr st'"
  by (auto simp: mark_completed_def split: sum.splits)

text \<open>
  \<^verbatim>\<open>is_completed\<close> raises on every \<^verbatim>\<open>completed_phases\<close> that is not iterable: \<^verbatim>\<open>null\<close>,
  a boolean or a number.
\<close>

lemma is_completed_not_iterable:
  "map_of st ''completed_phases'' = Some v \<Longrightarrow>
   v = JNull \<or> (\<exists>b. v = JBool b) \<or> (\<exists>n. v = JNum n) \<Longrightarrow>
     is_completed st p = Inl TypeError"
  by (auto simp: is_completed_def dict_get_def)

text \<open>
  C2 (state durability), as stated for every state, fails on a state whose
  \<^verbatim>\<open>completed_phases\<close> list holds an item that is not a string: \<^verbatim>\<open>mark_completed\<close>
  appends the phase, writes the file and returns, and the next \<^verbatim>\<open>load_state\<close> raises
  \<^verbatim>\<open>TypeError\<close> when it joins the list for its log line, so the reloaded state does not
  report the phase as completed.
\<close>

theorem mark_completed_not_reloadable:
  "mark_completed [(''completed_phases'', JList [JNum 1]), (''phase_data'', JObj [])]
       ''phase0_crawl'' JNull
     = Inr ([(''completed_phases'', JList [JNum 1, JStr ''phase0_crawl'']), (''phase_data'', JObj [])],
            save_state [(''completed_phases'', JList [JNum 1, JStr ''phase0_crawl'']),
                        (''phase_data'', JObj [])])
   \<and> load_state (save_state [(''completed_phases'', JList [JNum 1, JStr ''phase0_crawl'']),
                              (''phase_data'', JObj [])]) = Inl TypeError
   \<and> \<not> recorded (save_state [(''completed_phases'', JList [JNum 1, JStr ''phase0_crawl'']),
                              (''phase_data'', JObj [])]) ''phase0_crawl''"
  by (simp add: mark_completed_def add_phase_def store_data_def load_state_def save_state_def
      json_load_def load_report_def dict_get_def recorded_def)

text \<open>
  C2, amended. For every state that \<^verbatim>\<open>load_state\<close> gives back after \<^verbatim>\<open>save_state\<close> has
  written it (every state that \<^verbatim>\<open>load_state\<close> returns is one, and so is every state that
  \<^verbatim>\<open>mark_completed\<close> makes of one), when \<^verbatim>\<open>mark_completed(state, p, data)\<close> returns
  the new state \<open>st'\<close> and the state file \<open>f\<close>: \<open>p\<close> is completed in \<open>st'\<close>; a list in
  \<^verbatim>\<open>completed_phases\<close> has got \<open>p\<close> appended at its end, unless it held \<open>p\<close> already, and
  has not changed otherwise, so that every phase that was completed still is;
  \<^verbatim>\<open>phase_data\<close> has not changed when the data is \<^verbatim>\<open>None\<close>, and otherwise has \<open>p\<close> set
  to the data and its other entries kept; all other keys of the state have kept their
  values; \<open>f\<close> holds the whole of \<open>st'\<close>; and \<^verbatim>\<open>load_state\<close> of \<open>f\<close> returns \<open>st'\<close> and
  so reports \<open>p\<close> as completed.
\<close>

theorem mark_completed_durable:
  assumes "loadable st" and "mark_completed st p d = Inr (st', f)"
  shows "is_completed st' p = Inr True
     \<and> (\<forall>xs. map_of st ''completed_phases'' = Some (JList xs) \<longrightarrow>
          map_of st' ''completed_phases''
            = Some (JList (if JStr p \<in> set xs then xs else xs @ [JStr p])))
     \<and> ((\<forall>xs. map_of st ''completed_phases'' \<noteq> Some (JList xs)) \<longrightarrow>
          map_of st' ''completed_phases'' = map_of st ''completed_phases'')
     \<and> (\<forall>q. is_completed st q = Inr True \<longrightarrow> is_completed st' q = Inr True)
     \<and> (d = JNull \<longrightarrow> map_of st' ''phase_data'' = map_of st ''phase_data'')
     \<and> (d \<noteq> JNull \<longrightarrow>
          (\<exists>old. map_of st ''phase_data'' = Some (JObj old)
             \<and> map_of st' ''phase_data'' = Some (JObj (AList.update p d old))))
     \<and> (d \<noteq> JNull \<longrightarrow>
          (\<exists>pd. map_of st' ''phase_data'' = Some (JObj pd) \<and> map_of pd p = Some d))
     \<and> (\<forall>k. k \<noteq> ''completed_phases'' \<and> k \<noteq> ''phase_data'' \<longrightarrow> map_of st' k = map_of st k)
     \<and> map fst st' = map fst st
     \<and> f = save_state st' \<and> load_state f = Inr st' \<and> recorded f p"
proof -
  from mark_completed_steps[OF assms(2)] obtain st1 where
    a: "add_phase st p = Inr st1" and s: "store_data st1 p d = Inr st'"
    by blast
  have in': "is_completed st' p = Inr True"
    using assms(2) by (rule mark_completed_in)
  have cp: "map_of st' ''completed_phases'' = map_of st1 ''completed_phases''"
    using s by (rule store_data_completed)
  have lst: "\<forall>xs. map_of st ''completed_phases'' = Some (JList xs) \<longrightarrow>
          map_of st' ''completed_phases''
            = Some (JList (if JStr p \<in> set xs then xs else xs @ [JStr p]))"
    using add_phase_list[OF a] cp by simp
  have nlst: "(\<forall>xs. map_of st ''completed_phases'' \<noteq> Some (JList xs)) \<longrightarrow>
          map_of st' ''completed_phases'' = map_of st ''completed_phases''"
    using add_phase_not_list[OF a] cp by simp
  have mono: "\<forall>q. is_completed st q = Inr True \<longrightarrow> is_completed st' q = Inr True"
    using mark_completed_mono[OF assms(2)] by blast
  have pd1: "map_of st1 ''phase_data'' = map_of st ''phase_data''"
    using a by (rule add_phase_other) simp
  have null: "d = JNull \<longrightarrow> map_of st' ''phase_data'' = map_of st ''phase_data''"
    using s pd1 by (auto dest: store_data_null)
  have stored: "d \<noteq> JNull \<longrightarrow>
          (\<exists>old. map_of st ''phase_data'' = Some (JObj old)
             \<and> map_of st' ''phase_data'' = Some (JObj (AList.update p d old)))"
    using store_data_update[OF s] pd1 by simp
  have under: "d \<noteq> JNull \<longrightarrow>
          (\<exists>pd. map_of st' ''phase_data'' = Some (JObj pd) \<and> map_of pd p = Some d)"
    using mark_completed_stored[OF assms(2)] by blast
  have other: "\<forall>k. k \<noteq> ''completed_phases'' \<and> k \<noteq> ''phase_data'' \<longrightarrow> map_of st' k = map_of st k"
    using add_phase_other[OF a] store_data_other[OF s] by simp
  have keys: "map fst st' = map fst st"
    using add_phase_keys[OF a] store_data_keys[OF s] by simp
  have wrote: "f = save_state st'"
    using assms(2) by (rule mark_completed_file)
  have "loadable st'"
    using assms by (rule mark_completed_loadable)
  then have load: "load_state f = Inr st'"
    by (simp add: loadable_def wrote)
  have rec: "recorded f p"
    by (simp add: recorded_def load in')
  show ?thesis
    apply (intro conjI)
               apply (rule in')
              apply (rule lst)
             apply (rule nlst)
            apply (rule mono)
           apply (rule null)
          apply (rule stored)
         apply (rule under)
        apply (rule other)
       apply (rule keys)
      apply (rule wrote)
     apply (rule load)
    apply (rule rec)
    done
qed

text \<open>
  A run of it: the first phase is completed and has its data, the state has a key of its
  own, and the second phase is marked with a summary. The new state has both phases, in
  order, both data entries and the extra key, and the file written reports both phases
  as completed.
\<close>

theorem mark_completed_durable_witness:
  "mark_completed
     [(''completed_phases'', JList [JStr ''phase0_crawl'']),
      (''phase_data'', JObj [(''phase0_crawl'', JObj [(''skipped'', JBool True)])]),
      (''note'', JStr ''kept'')]
     ''phase1_synth'' (JObj [(''count'', JNum 3)])
   = Inr ([(''completed_phases'', JList [JStr ''phase0_crawl'', JStr ''phase1_synth'']),
           (''phase_data'', JObj [(''phase0_crawl'', JObj [(''skipped'', JBool True)]),
                                  (''phase1_synth'', JObj [(''count'', JNum 3)])]),
           (''note'', JStr ''kept'')],
          save_state
           [(''completed_phases'', JList [JStr ''phase0_crawl'', JStr ''phase1_synth'']),
            (''phase_data'', JObj [(''phase0_crawl'', JObj [(''skipped'', JBool True)]),
                                   (''phase1_synth'', JObj [(''count'', JNum 3)])]),
            (''note'', JStr ''kept'')])
   \<and> recorded (save_state
           [(''completed_phases'', JList [JStr ''phase0_crawl'', JStr ''phase1_synth'']),
            (''phase_data'', JObj [(''phase0_crawl'', JObj [(''skipped'', JBool True)]),
                                   (''phase1_synth'', JObj [(''count'', JNum 3)])]),
            (''note'', JStr ''kept'')]) ''phase1_synth''
   \<and> recorded (save_state
           [(''completed_phases'', JList [JStr ''phase0_crawl'', JStr ''phase1_synth'']),
            (''phase_data'', JObj [(''phase0_crawl'', JObj [(''skipped'', JBool True)]),
                                   (''phase1_synth'', JObj [(''count'', JNum 3)])]),
            (''note'', JStr ''kept'')]) ''phase0_crawl''"
proof -
  let ?st = "[(''completed_phases'', JList [JStr ''phase0_crawl'']),
      (''phase_data'', JObj [(''phase0_crawl'', JObj [(''skipped'', JBool True)])]),
      (''note'', JStr ''kept'')]"
  let ?st' = "[(''completed_phases'', JList [JStr ''phase0_crawl'', JStr ''phase1_synth'']),
           (''phase_data'', JObj [(''phase0_crawl'', JObj [(''skipped'', JBool True)]),
                                  (''phase1_synth'', JObj [(''count'', JNum 3)])]),
           (''note'', JStr ''kept'')]"
  have h1: "loadable ?st"
    by (simp add: loadable_iff dict_get_def)
  have h2: "mark_completed ?st ''phase1_synth'' (JObj [(''count'', JNum 3)])
       = Inr (?st', save_state ?st')"
    by (simp add: mark_completed_def add_phase_def store_data_def)
  have old: "is_completed ?st ''phase0_crawl'' = Inr True"
    by (simp add: is_completed_def dict_get_def)
  from mark_completed_durable [OF h1 h2]
  have r: "recorded (save_state ?st') ''phase1_synth''"
    and l: "load_state (save_state ?st') = Inr ?st'"
    and m: "\<forall>q. is_completed ?st q = Inr True \<longrightarrow> is_completed ?st' q = Inr True"
    by blast+
  from m old have "is_completed ?st' ''phase0_crawl'' = Inr True" by blast
  with l have "recorded (save_state ?st') ''phase0_crawl''"
    by (simp add: recorded_def)
  with h2 r show ?thesis by simp
qed

text \<open>
  C8 (corruption-tolerant load). An absent state file, one that cannot be opened and one
  whose text is not JSON give the empty state (the three lemmas above). A state file
  whose bytes are not UTF-8 is not covered by the handler of \<^verbatim>\<open>load_state\<close>: the
  \<^verbatim>\<open>UnicodeDecodeError\<close> of \<^verbatim>\<open>json.load\<close> leaves the function.
\<close>

theorem load_state_invalid_utf8: "load_state (Some InvalidUtf8) = Inl UnicodeDecodeError"
  by (simp add: load_state_def json_load_def)

text \<open>
  C10 (totality of \<^verbatim>\<open>is_completed\<close>), as stated, fails on a dict whose
  \<^verbatim>\<open>completed_phases\<close> is \<^verbatim>\<open>null\<close>: \<^verbatim>\<open>in\<close> raises \<^verbatim>\<open>TypeError\<close>.
\<close>

theorem is_completed_null_raises:
  "is_completed [(''completed_phases'', JNull)] ''phase0_crawl'' = Inl TypeError"
  by (simp add: is_completed_def dict_get_def)

text \<open>
  C10, amended. For every dict-shaped state in which \<^verbatim>\<open>completed_phases\<close> is missing or
  is neither \<^verbatim>\<open>null\<close> nor a boolean nor a number, \<^verbatim>\<open>is_completed\<close> does not raise;
  with the key missing it returns false for every phase, and with a list it returns true
  exactly for the phases that are items of the list.
\<close>

theorem is_completed_total:
  assumes "\<forall>v. map_of st ''completed_phases'' = Some v \<longrightarrow>
     v \<noteq> JNull \<and> (\<forall>b. v \<noteq> JBool b) \<and> (\<forall>n. v \<noteq> JNum n)"
  shows "(\<exists>b. is_completed st p = Inr b)
     \<and> (map_of st ''completed_phases'' = None \<longrightarrow> is_completed st p = Inr False)
     \<and> (\<forall>xs. map_of st ''completed_phases'' = Some (JList xs) \<longrightarrow>
           is_completed st p = Inr (JStr p \<in> set xs))"
proof (cases "map_of st ''completed_phases''")
  case None
  then show ?thesis by (auto simp: is_completed_def dict_get_def)
next
  case (Some v)
  with assms have "v \<noteq> JNull" "\<forall>b. v \<noteq> JBool b" "\<forall>n. v \<noteq> JNum n" by simp_all
  then show ?thesis
    by (cases v) (auto simp: is_completed_def dict_get_def Some)
qed

theorem is_completed_total_witness: "is_completed [] ''phase0_crawl'' = Inr False"
  using is_completed_total [of "[]" "''phase0_crawl''"] by simp

section \<open>Properties of the checkpoints\<close>

lemma tmp_neq: "path @ ''.tmp'' \<noteq> (path::string)"
  by simp

lemma torch_save_states_path:
  "p \<noteq> q \<Longrightarrow> fs' \<in> set (torch_save_states b p fs) \<Longrightarrow> fs' q = fs q"
  by (auto simp: torch_save_states_def)

lemma torch_save_states_last: "last (torch_save_states b p fs) = fs(p \<mapsto> b)"
  by (simp add: torch_save_states_def last_map)

lemma torch_save_states_ne: "torch_save_states b p fs \<noteq> []"
  by (simp add: torch_save_states_def)

lemma save_checkpoint_states_eq:
  "save_checkpoint_states torch_dumps path m ep fs =
     fs # torch_save_states (torch_dumps \<lparr>epoch = ep, blob = m\<rparr>) (path @ ''.tmp'') fs
       @ [(fs(path \<mapsto> torch_dumps \<lparr>epoch = ep, blob = m\<rparr>))(path @ ''.tmp'' := None)]"
  by (simp add: save_checkpoint_states_def Let_def torch_save_states_last os_replace_def fun_upd_twist)

lemma save_checkpoint_eq:
  "save_checkpoint torch_dumps path m ep fs =
     Inr ((fs(path \<mapsto> torch_dumps \<lparr>epoch = ep, blob = m\<rparr>))(path @ ''.tmp'' := None))"
  by (simp add: save_checkpoint_def Let_def torch_save_states_last os_replace_def fun_upd_twist)

text \<open>
  C3 (atomic checkpoint). Of the file systems that a kill during \<^verbatim>\<open>save_checkpoint\<close>
  can leave behind, every one holds at the canonical path either what was there before the
  call (the previous checkpoint, or nothing) or the complete new checkpoint. The
  canonical path is untouched in all of them but the last; the one before the last has
  the complete checkpoint at the temporary path, and the last, the result of the call,
  has it at the canonical path. \<^verbatim>\<open>Trainer._save_checkpoint\<close> goes through the same file
  systems.
\<close>

theorem save_checkpoint_atomic:
  "(\<forall>fs' \<in> set (save_checkpoint_states torch_dumps path m ep fs).
       fs' path = fs path \<or> fs' path = Some (torch_dumps \<lparr>epoch = ep, blob = m\<rparr>))
   \<and> (\<forall>fs' \<in> set (butlast (save_checkpoint_states torch_dumps path m ep fs)). fs' path = fs path)
   \<and> last (butlast (save_checkpoint_states torch_dumps path m ep fs))
        = fs(path @ ''.tmp'' \<mapsto> torch_dumps \<lparr>epoch = ep, blob = m\<rparr>)
   \<and> last (save_checkpoint_states torch_dumps path m ep fs) path
        = Some (torch_dumps \<lparr>epoch = ep, blob = m\<rparr>)
   \<and> save_checkpoint torch_dumps path m ep fs
        = Inr (last (save_checkpoint_states torch_dumps path m ep fs))
   \<and> trainer_save_checkpoint_states torch_dumps path m ep fs
        = save_checkpoint_states torch_dumps path m ep fs"
proof -
  let ?b = "torch_dumps \<lparr>epoch = ep, blob = m\<rparr>"
  let ?w = "torch_save_states ?b (path @ ''.tmp'') fs"
  have bl: "butlast (save_checkpoint_states torch_dumps path m ep fs) = fs # ?w"
    by (simp add: save_checkpoint_states_eq butlast_append)
  have w: "\<forall>fs' \<in> set ?w. fs' path = fs path"
    using torch_save_states_path[OF tmp_neq] by blast
  have 1: "\<forall>fs' \<in> set (butlast (save_checkpoint_states torch_dumps path m ep fs)). fs' path = fs path"
    using w by (simp add: bl)
  have 2: "\<forall>fs' \<in> set (save_checkpoint_states torch_dumps path m ep fs).
       fs' path = fs path \<or> fs' path = Some ?b"
    using w by (auto simp: save_checkpoint_states_eq)
  have 3: "last (butlast (save_checkpoint_states torch_dumps path m ep fs)) = fs(path @ ''.tmp'' \<mapsto> ?b)"
    by (simp add: bl torch_save_states_ne torch_save_states_last)
  have 4: "last (save_checkpoint_states torch_dumps path m ep fs) path = Some ?b"
    by (simp add: save_checkpoint_states_eq)
  have 5: "save_checkpoint torch_dumps path m ep fs
        = Inr (last (save_checkpoint_states torch_dumps path m ep fs))"
    by (simp add: save_checkpoint_states_eq save_checkpoint_eq)
  have 6: "trainer_save_checkpoint_states torch_dumps path m ep fs
        = save_checkpoint_states torch_dumps path m ep fs"
    by (simp add: trainer_save_checkpoint_states_def save_checkpoint_states_def)
  from 1 2 3 4 5 6 show ?thesis by blast
qed

text \<open>
  A kill while the temporary file holds two of the three bytes of the new checkpoint:
  the canonical path still holds the old checkpoint.
\<close>

theorem save_checkpoint_atomic_witness:
  "(Map.empty(''m_latest.pth'' \<mapsto> ''old'', ''m_latest.pth.tmp'' \<mapsto> ''ne'')) ''m_latest.pth'' = Some ''old''
   \<and> (Map.empty(''m_latest.pth'' \<mapsto> ''old'', ''m_latest.pth.tmp'' \<mapsto> ''ne''))
        \<in> set (save_checkpoint_states (\<lambda>ck. ''new'') ''m_latest.pth'' () 9 (Map.empty(''m_latest.pth'' \<mapsto> ''old'')))"
proof -
  let ?fs = "Map.empty(''m_latest.pth'' \<mapsto> ''old'')"
  let ?mid = "Map.empty(''m_latest.pth'' \<mapsto> ''old'', ''m_latest.pth.tmp'' \<mapsto> ''ne'')"
  let ?f = "\<lambda>k. ?fs(''m_latest.pth'' @ ''.tmp'' \<mapsto> take k ''new'')"
  have "(2::nat) \<in> set [0..<Suc (length ''new'')]" by simp
  then have "?f 2 \<in> ?f ` set [0..<Suc (length ''new'')]" by (rule imageI)
  then have "?f 2 \<in> set (torch_save_states ''new'' (''m_latest.pth'' @ ''.tmp'') ?fs)"
    by (simp only: torch_save_states_def set_map)
  moreover have "?f 2 = ?mid" by (simp add: numeral_2_eq_2)
  ultimately have mem: "?mid \<in> set (save_checkpoint_states (\<lambda>ck. ''new'') ''m_latest.pth'' () 9 ?fs)"
    by (simp add: save_checkpoint_states_eq)
  from save_checkpoint_atomic [of "\<lambda>ck. ''new''" "''m_latest.pth''" "()" 9 ?fs] mem
  have "?mid ''m_latest.pth'' = ?fs ''m_latest.pth'' \<or> ?mid ''m_latest.pth'' = Some ''new''"
    by blast
  then show ?thesis using mem by simp
qed

section \<open>Properties of the checkpointed job runner\<close>

lemma train_epochs_started:
  "\<exists>k. k \<le> length eps \<and> (eps \<noteq> [] \<longrightarrow> 1 \<le> k)
     \<and> fst (snd (train_epochs cfg torch_dumps step ckpt_path epoch_path eps m started fs))
         = started @ take k eps"
proof (induction eps arbitrary: m started fs)
  case Nil
  show ?case by simp
next
  case (Cons ep rest)
  have stop: "\<And>r. fst (snd r) = started @ [ep] \<Longrightarrow>
      \<exists>k. k \<le> length (ep # rest) \<and> (ep # rest \<noteq> [] \<longrightarrow> 1 \<le> k)
        \<and> fst (snd r) = started @ take k (ep # rest)"
    by (rule_tac x = 1 in exI) simp
  have go: "\<And>m' fs'. \<exists>k. k \<le> length (ep # rest) \<and> (ep # rest \<noteq> [] \<longrightarrow> 1 \<le> k)
        \<and> fst (snd (train_epochs cfg torch_dumps step ckpt_path epoch_path rest m' (started @ [ep]) fs'))
            = started @ take k (ep # rest)"
  proof -
    fix m' fs'
    from Cons.IH[of m' "started @ [ep]" fs'] obtain k where
      "k \<le> length rest"
      "fst (snd (train_epochs cfg torch_dumps step ckpt_path epoch_path rest m' (started @ [ep]) fs'))
         = (started @ [ep]) @ take k rest" by blast
    then show "\<exists>k. k \<le> length (ep # rest) \<and> (ep # rest \<noteq> [] \<longrightarrow> 1 \<le> k)
        \<and> fst (snd (train_epochs cfg torch_dumps step ckpt_path epoch_path rest m' (started @ [ep]) fs'))
            = started @ take k (ep # rest)"
      by (intro exI[of _ "Suc k"]) simp
  qed
  show ?case
    apply (simp only: train_epochs.simps split: sum.split if_split)
    apply (intro conjI impI allI)
    apply (rule go | (rule stop, simp))+
    done
qed

lemma take_upto_hd: "a \<le> b \<Longrightarrow> 1 \<le> k \<Longrightarrow> hd (take k [a..b]) = a \<and> take k [a..b] \<noteq> []"
  by (cases k) (simp_all add: upto_rec1)

text \<open>
  C4 (checkpoint resume position). With \<open>U\<close> the configured number of epochs:
  if the latest checkpoint exists and stores epoch \<open>e\<close>, the epochs run are an initial
  part of \<open>e + 1, \<dots>, U - 1\<close>, so the first one run, if any, is \<open>e + 1\<close>; one is run when
  the data is there and \<open>e + 1 < U\<close>; and with \<open>e + 1 \<ge> U\<close> nothing is run and no file is
  touched. Without a checkpoint the same holds with 0 in place of \<open>e + 1\<close>.
\<close>

theorem train_one_monitor_resume:
  fixes cfg :: train_config
  defines "U \<equiv> NUM_EPOCHS cfg"
  shows "let r = train_one_monitor cfg torch_load torch_dumps step ckpt_path epoch_path
                   lmdb_exists dataset_len m0 fs;
             started = fst (snd r)
   in (\<forall>b ck. fs ckpt_path = Some b \<and> torch_load b = Inr ck \<longrightarrow>
         prefix started [epoch ck + 1..U - 1]
         \<and> (lmdb_exists \<and> 0 < dataset_len \<and> epoch ck + 1 < U \<longrightarrow>
              started \<noteq> [] \<and> hd started = epoch ck + 1)
         \<and> (epoch ck + 1 \<ge> U \<longrightarrow> r = (None, [], fs)))
    \<and> (fs ckpt_path = None \<longrightarrow>
         prefix started [0..U - 1]
         \<and> (lmdb_exists \<and> 0 < dataset_len \<and> 0 < U \<longrightarrow> started \<noteq> [] \<and> hd started = 0)
         \<and> (0 \<ge> U \<longrightarrow> r = (None, [], fs)))"
proof -
  have run: "\<And>s m. s < U \<Longrightarrow>
     prefix (fst (snd (train_epochs cfg torch_dumps step ckpt_path epoch_path [s..U - 1] m [] fs))) [s..U - 1]
     \<and> fst (snd (train_epochs cfg torch_dumps step ckpt_path epoch_path [s..U - 1] m [] fs)) \<noteq> []
     \<and> hd (fst (snd (train_epochs cfg torch_dumps step ckpt_path epoch_path [s..U - 1] m [] fs))) = s"
  proof -
    fix s m assume "s < U"
    then have ne: "[s..U - 1] \<noteq> []" and le: "s \<le> U - 1" by simp_all
    from train_epochs_started[of "[s..U - 1]" cfg torch_dumps step ckpt_path epoch_path m "[]" fs] ne
    obtain k where k: "1 \<le> k"
      "fst (snd (train_epochs cfg torch_dumps step ckpt_path epoch_path [s..U - 1] m [] fs)) = take k [s..U - 1]"
      by auto
    show "prefix (fst (snd (train_epochs cfg torch_dumps step ckpt_path epoch_path [s..U - 1] m [] fs))) [s..U - 1]
     \<and> fst (snd (train_epochs cfg torch_dumps step ckpt_path epoch_path [s..U - 1] m [] fs)) \<noteq> []
     \<and> hd (fst (snd (train_epochs cfg torch_dumps step ckpt_path epoch_path [s..U - 1] m [] fs))) = s"
      using take_upto_hd[OF le k(1)] by (simp add: k(2) take_is_prefix)
  qed
  show ?thesis
    unfolding Let_def train_one_monitor_def load_checkpoint_def U_def[symmetric]
    using run by (auto simp: U_def[symmetric])
qed

text \<open>
  The scenario of the specification: a checkpoint at epoch 9 and 20 epochs in all; the
  first epoch that runs is 10.
\<close>

theorem train_one_monitor_resume_witness:
  "hd (fst (snd (train_one_monitor \<lparr>NUM_EPOCHS = 20, SAVE_INTERVAL = 1\<rparr>
        (\<lambda>b. Inr \<lparr>epoch = 9, blob = ()\<rparr>) (\<lambda>ck. ''ckpt'') (\<lambda>ep m. Inr m)
        ''m_latest.pth'' (\<lambda>ep. ''m_epoch.pth'') True 1 () (Map.empty(''m_latest.pth'' \<mapsto> ''ckpt''))))) = 10"
  using train_one_monitor_resume [of "\<lparr>NUM_EPOCHS = 20, SAVE_INTERVAL = 1\<rparr>" "\<lambda>b. Inr \<lparr>epoch = 9, blob = ()\<rparr>" "\<lambda>ck. ''ckpt''"
       "\<lambda>ep m. Inr m" "''m_latest.pth''" "\<lambda>ep. ''m_epoch.pth''" True 1 "()"
        "Map.empty(''m_latest.pth'' \<mapsto> ''ckpt'')"]
  by (simp add: Let_def)

section \<open>Properties of the process supervisor\<close>

text \<open>
  A run of attempts that all fail and leave the loop running goes through all of them: it
  adds one \<open>Attempt\<close> event per attempt and one \<open>Sleep\<close> for every attempt but the last
  of the budget.
\<close>

lemma attempts_proceeds:
  "\<forall>a\<in>set as. proceeds w (outcome a) \<Longrightarrow>
   \<exists>tr'. attempts w mx d outcome (as @ bs) tr = attempts w mx d outcome bs (tr @ tr')
       \<and> filter is_Attempt tr' = map Attempt as
       \<and> length (filter is_Sleep tr') = length (filter (\<lambda>a. a < mx) as)"
proof (induction as arbitrary: tr)
  case Nil
  show ?case by (rule exI[of _ "[]"]) simp
next
  case (Cons a as)
  let ?pause = "if a < mx then [Sleep d] else []"
  from Cons.prems have ta: "proceeds w (outcome a)"
    and rest: "\<forall>a\<in>set as. proceeds w (outcome a)"
    by simp_all
  from ta obtain ev where
    step: "\<And>tr. attempts w mx d outcome ((a # as) @ bs) tr = attempts w mx d outcome (as @ bs) (tr @ ev)"
    and ev1: "filter is_Attempt ev = [Attempt a]"
    and ev2: "length (filter is_Sleep ev) = (if a < mx then 1 else 0)"
  proof (cases "outcome a")
    case (PopenRaises e)
    with ta show ?thesis
      by (intro that[of "[Attempt a] @ ?pause"]) (auto simp: PopenRaises)
  next
    case WaitTimesOut
    with ta have w by simp
    then show ?thesis
      by (intro that[of "[Attempt a, KillTree] @ ?pause"])
         (simp_all add: WaitTimesOut kill_proc_tree_def)
  next
    case (WaitRaises e)
    with ta have w and "e \<noteq> FileNotFoundError" by simp_all
    then show ?thesis
      by (intro that[of "[Attempt a, KillTree] @ ?pause"])
         (simp_all add: WaitRaises kill_proc_tree_def)
  next
    case (Exits rc ex sz)
    with ta show ?thesis
      by (intro that[of "[Attempt a] @ ?pause"]) (auto simp: Exits)
  qed
  from Cons.IH[OF rest, of "tr @ ev"] obtain tr' where
    "attempts w mx d outcome (as @ bs) (tr @ ev) = attempts w mx d outcome bs ((tr @ ev) @ tr')"
    "filter is_Attempt tr' = map Attempt as"
    "length (filter is_Sleep tr') = length (filter (\<lambda>a. a < mx) as)"
    by (elim exE conjE) blast
  then show ?case
    using step ev1 ev2 by (intro exI[of _ "ev @ tr'"]) auto
qed

lemma sleeps_upto: "length (filter (\<lambda>a. a < mx) [1..mx]) = nat (mx - 1)"
proof (cases "1 \<le> mx")
  case True
  then have "[1..mx] = [1..mx - 1] @ [mx]"
    by (rule upto_rec2)
  moreover have "filter (\<lambda>a. a < mx) [1..mx - 1] = [1..mx - 1]"
    by (rule filter_True) auto
  ultimately show ?thesis by simp
next
  case False
  then show ?thesis by simp
qed

text \<open>
  Where no timeout kills the caller (on Windows, or when no attempt times out), a task
  whose every attempt fails by timeout, bad exit code or missing or too small output is
  attempted \<open>MAX_RETRIES\<close> times, with a sleep between the attempts, and
  \<^verbatim>\<open>download_page\<close> returns failure.
\<close>

lemma download_page_retries_when_alive:
  assumes "\<forall>a. 1 \<le> a \<and> a \<le> mx \<longrightarrow>
     transient_failure (outcome a) \<and> (w \<or> outcome a \<noteq> WaitTimesOut)"
  shows "fst (download_page w mx d outcome) = Some False
     \<and> filter is_Attempt (snd (download_page w mx d outcome)) = map Attempt [1..mx]
     \<and> length (filter is_Attempt (snd (download_page w mx d outcome))) = nat mx
     \<and> length (filter is_Sleep (snd (download_page w mx d outcome))) = nat (mx - 1)"
proof -
  have "proceeds w (outcome a)" if "1 \<le> a" "a \<le> mx" for a
    using assms that by (cases "outcome a") auto
  then have "\<forall>a\<in>set [1..mx]. proceeds w (outcome a)" by simp
  from attempts_proceeds[OF this, of mx d "[]" "[]"]
  obtain tr' where "attempts w mx d outcome [1..mx] [] = (Some False, tr')"
     "filter is_Attempt tr' = map Attempt [1..mx]"
     "length (filter is_Sleep tr') = length (filter (\<lambda>a. a < mx) [1..mx])"
    by auto
  then show ?thesis by (simp add: download_page_def sleeps_upto)
qed

lemma download_page_timeout_windows:
  "download_page True 2 1 (\<lambda>a. WaitTimesOut)
     = (Some False, [Attempt 1, KillTree, Sleep 1, Attempt 2, KillTree])"
  by code_simp

text \<open>
  C5 (bounded retries) fails on every platform other than Windows at the first attempt
  that times out: the worker runs in the process group of the caller, the kill of the
  worker's process group is the kill of the caller's, and the process that runs
  \<^verbatim>\<open>download_page\<close> ends with it. With \<^verbatim>\<open>MAX_RETRIES = 2\<close> and attempts that time out,
  one attempt is made, not two, and no failure is returned: nothing is.
\<close>

theorem download_page_timeout_kills_caller:
  "download_page False 2 1 (\<lambda>a. WaitTimesOut) = (None, [Attempt 1, KillOwnGroup])"
  by code_simp

text \<open>
  C7 (configuration failure is not retried). An attempt that cannot start its process
  because the executable is not found returns failure on the spot, with no kill, no sleep
  and no further attempt, whatever is left of the budget. So if attempt \<open>k\<close> of the
  budget is such an attempt, and the attempts before it failed and left the loop running,
  \<^verbatim>\<open>download_page\<close> returns failure and attempt \<open>k\<close> is the last thing it does: none of
  the attempts \<open>k + 1, \<dots>, MAX_RETRIES\<close> is made.
\<close>

theorem download_page_not_found_no_retry:
  assumes "1 \<le> k" and "k \<le> mx" and "outcome k = PopenRaises FileNotFoundError"
    and "\<forall>a. 1 \<le> a \<and> a < k \<longrightarrow> proceeds w (outcome a)"
  shows "(\<forall>rest tr. attempts w mx d outcome (k # rest) tr = (Some False, tr @ [Attempt k]))
     \<and> (\<exists>tr. download_page w mx d outcome = (Some False, tr @ [Attempt k])
          \<and> filter is_Attempt tr = map Attempt [1..k - 1])"
proof -
  have now: "\<forall>rest tr. attempts w mx d outcome (k # rest) tr = (Some False, tr @ [Attempt k])"
    by (simp add: assms(3))
  have split: "[1..mx] = [1..k - 1] @ k # [k + 1..mx]"
    using assms(1,2) by (rule upto_split3)
  from assms(4) have "\<forall>a\<in>set [1..k - 1]. proceeds w (outcome a)" by simp
  from attempts_proceeds[OF this, of mx d "k # [k + 1..mx]" "[]"]
  obtain tr' where "attempts w mx d outcome [1..mx] [] = attempts w mx d outcome (k # [k + 1..mx]) tr'"
    "filter is_Attempt tr' = map Attempt [1..k - 1]"
    by (auto simp: split)
  then have "\<exists>tr. download_page w mx d outcome = (Some False, tr @ [Attempt k])
          \<and> filter is_Attempt tr = map Attempt [1..k - 1]"
    by (auto simp: download_page_def assms(3))
  with now show ?thesis by blast
qed

text \<open>
  A run of it: a budget of three, a first attempt that exits with code 1, a second that
  does not find the executable. The third attempt is not made.
\<close>

theorem download_page_not_found_no_retry_witness:
  "download_page False 3 1 (\<lambda>a. if a = 2 then PopenRaises FileNotFoundError else Exits 1 False 0)
     = (Some False, [Attempt 1, Sleep 1, Attempt 2])"
proof -
  let ?o = "\<lambda>a::int. if a = 2 then PopenRaises FileNotFoundError else Exits 1 False 0"
  have "(\<forall>rest tr. attempts False 3 1 ?o (2 # rest) tr = (Some False, tr @ [Attempt 2]))
     \<and> (\<exists>tr. download_page False 3 1 ?o = (Some False, tr @ [Attempt 2])
          \<and> filter is_Attempt tr = map Attempt [1..2 - 1])"
    by (rule download_page_not_found_no_retry) simp_all
  moreover have "download_page False 3 1 ?o = (Some False, [Attempt 1, Sleep 1, Attempt 2])"
    by code_simp
  ultimately show ?thesis by simp
qed

section \<open>Properties of the interactive gate\<close>

text \<open>
  One round of the loop: the predicate has cleared, the clock has passed the timeout, or
  the loop sleeps and polls again. While the predicate holds and the clock has not
  passed the timeout, the loop goes on; with a clock that moves forward it comes to an
  end.
\<close>

lemma wait_loop_clear:
  "\<not> check_fn (Suc n) \<Longrightarrow> wait_loop check_fn elapsed t n = Some (True, n)"
  by (subst wait_loop.simps) simp

lemma wait_loop_timeout:
  "check_fn (Suc n) \<Longrightarrow> elapsed n > real_of_int t \<Longrightarrow>
     wait_loop check_fn elapsed t n = Some (False, n)"
  by (subst wait_loop.simps) simp

lemma wait_loop_step:
  "check_fn (Suc n) \<Longrightarrow> elapsed n \<le> real_of_int t \<Longrightarrow>
     wait_loop check_fn elapsed t n = wait_loop check_fn elapsed t (Suc n)"
  by (subst wait_loop.simps) simp

lemma wait_loop_run:
  "\<forall>j<m. check_fn (Suc (n + j)) \<and> elapsed (n + j) \<le> real_of_int t \<Longrightarrow>
     wait_loop check_fn elapsed t n = wait_loop check_fn elapsed t (n + m)"
proof (induction m arbitrary: n)
  case 0
  then show ?case by simp
next
  case (Suc m)
  from Suc.prems have ck: "check_fn (Suc n)" and le: "elapsed n \<le> real_of_int t"
    by (metis add.right_neutral zero_less_Suc)+
  have rest: "\<forall>j<m. check_fn (Suc (Suc n + j)) \<and> elapsed (Suc n + j) \<le> real_of_int t"
  proof (intro allI impI)
    fix j assume "j < m"
    then have "Suc j < Suc m" by simp
    with Suc.prems have "check_fn (Suc (n + Suc j)) \<and> elapsed (n + Suc j) \<le> real_of_int t"
      by blast
    then show "check_fn (Suc (Suc n + j)) \<and> elapsed (Suc n + j) \<le> real_of_int t" by simp
  qed
  have "wait_loop check_fn elapsed t n = wait_loop check_fn elapsed t (Suc n)"
    using ck le by (rule wait_loop_step)
  also have "\<dots> = wait_loop check_fn elapsed t (Suc n + m)"
    by (rule Suc.IH[OF rest])
  finally show ?case by simp
qed

lemma clock_lower: "clock_advances elapsed \<Longrightarrow> 2 * real n \<le> elapsed n"
proof (induction n)
  case 0
  then show ?case by (simp add: clock_advances_def)
next
  case (Suc n)
  then have "2 * real n \<le> elapsed n" and "elapsed n + 2 \<le> elapsed (Suc n)"
    by (simp_all add: clock_advances_def)
  then show ?case by simp
qed

lemma wait_loop_returns_fuel:
  "clock_advances elapsed \<Longrightarrow> real_of_int t - elapsed n < 2 * real k \<Longrightarrow>
     \<exists>v m. wait_loop check_fn elapsed t n = Some (v, m) \<and> n \<le> m
       \<and> (\<forall>j. n \<le> j \<and> j < m \<longrightarrow> check_fn (Suc j) \<and> elapsed j \<le> real_of_int t)
       \<and> (v \<longleftrightarrow> \<not> check_fn (Suc m))
       \<and> (\<not> v \<longrightarrow> elapsed m > real_of_int t)"
proof (induction k arbitrary: n)
  case 0
  then have late: "elapsed n > real_of_int t" by simp
  show ?case
  proof (cases "check_fn (Suc n)")
    case True
    then have "wait_loop check_fn elapsed t n = Some (False, n)"
      using late by (rule wait_loop_timeout)
    then show ?thesis using True late by (intro exI[of _ False] exI[of _ n]) auto
  next
    case False
    then have "wait_loop check_fn elapsed t n = Some (True, n)"
      by (rule wait_loop_clear)
    then show ?thesis using False by (intro exI[of _ True] exI[of _ n]) auto
  qed
next
  case (Suc k)
  show ?case
  proof (cases "check_fn (Suc n)")
    case False
    then have "wait_loop check_fn elapsed t n = Some (True, n)"
      by (rule wait_loop_clear)
    then show ?thesis using False by (intro exI[of _ True] exI[of _ n]) auto
  next
    case True
    show ?thesis
    proof (cases "elapsed n > real_of_int t")
      case late: True
      from True late have "wait_loop check_fn elapsed t n = Some (False, n)"
        by (rule wait_loop_timeout)
      then show ?thesis using True late by (intro exI[of _ False] exI[of _ n]) auto
    next
      case False
      then have le: "elapsed n \<le> real_of_int t" by simp
      have step: "wait_loop check_fn elapsed t n = wait_loop check_fn elapsed t (Suc n)"
        using True le by (rule wait_loop_step)
      from Suc.prems(1) have "elapsed n + 2 \<le> elapsed (Suc n)"
        by (simp add: clock_advances_def)
      with Suc.prems(2) have "real_of_int t - elapsed (Suc n) < 2 * real k" by simp
      from Suc.IH[OF Suc.prems(1) this] obtain v m where
        r: "wait_loop check_fn elapsed t (Suc n) = Some (v, m)" and nm: "Suc n \<le> m"
        and run: "\<forall>j. Suc n \<le> j \<and> j < m \<longrightarrow> check_fn (Suc j) \<and> elapsed j \<le> real_of_int t"
        and v: "v \<longleftrightarrow> \<not> check_fn (Suc m)" and late': "\<not> v \<longrightarrow> elapsed m > real_of_int t"
        by (elim exE conjE) blast
      have run': "\<forall>j. n \<le> j \<and> j < m \<longrightarrow> check_fn (Suc j) \<and> elapsed j \<le> real_of_int t"
      proof (intro allI impI)
        fix j assume j: "n \<le> j \<and> j < m"
        show "check_fn (Suc j) \<and> elapsed j \<le> real_of_int t"
        proof (cases "j = n")
          case True
          with \<open>check_fn (Suc n)\<close> le show ?thesis by simp
        next
          case False
          with j have "Suc n \<le> j \<and> j < m" by simp
          with run show ?thesis by blast
        qed
      qed
      from nm have "n \<le> m" by simp
      with r step run' v late' show ?thesis
        by (intro exI[of _ v] exI[of _ m]) simp
    qed
  qed
qed

lemma wait_loop_returns:
  assumes "clock_advances elapsed"
  shows "\<exists>v m. wait_loop check_fn elapsed t n = Some (v, m) \<and> n \<le> m
       \<and> (\<forall>j. n \<le> j \<and> j < m \<longrightarrow> check_fn (Suc j) \<and> elapsed j \<le> real_of_int t)
       \<and> (v \<longleftrightarrow> \<not> check_fn (Suc m))
       \<and> (\<not> v \<longrightarrow> elapsed m > real_of_int t)"
proof -
  obtain k :: nat where "(real_of_int t - elapsed n) / 2 < real k"
    using reals_Archimedean2 by blast
  then have "real_of_int t - elapsed n < 2 * real k" by simp
  with assms show ?thesis by (rule wait_loop_returns_fuel)
qed

text \<open>
  C9 (interactive gate). With \<open>t\<close> the timeout in force (the argument, or
  \<^verbatim>\<open>config.CAPTCHA_WAIT_TIMEOUT\<close> when the argument is \<^verbatim>\<open>None\<close>) and the wait measured by
  the wall clock, as the code does: if the predicate is false at the first check, the gate
  returns true without sleeping; if it is true at the first check and at \<open>n\<close> polls of
  the loop, each of which finds no more than \<open>t\<close> seconds on the clock, and false at the
  next poll, the gate returns true after \<open>n\<close> sleeps of two seconds; if it is still true
  at the first poll that finds more than \<open>t\<close> seconds on the clock, the gate returns
  false there; and with a clock that moves forward the gate does return, after at most
  one sleep more than fit into \<open>t\<close> seconds, false only when the predicate held at every
  poll and the clock has passed the timeout, true only when the predicate was found
  false.
\<close>

theorem wait_for_captcha_semantics:
  fixes elapsed :: "nat \<Rightarrow> real"
  assumes "t = (case timeout_arg of None \<Rightarrow> C | Some t' \<Rightarrow> t')"
  shows "(\<not> check_fn 0 \<longrightarrow> wait_for_captcha C check_fn elapsed timeout_arg = Some (True, 0))
   \<and> ((\<forall>k\<le>n. check_fn k) \<and> \<not> check_fn (Suc n) \<and> (\<forall>k<n. elapsed k \<le> real_of_int t)
      \<longrightarrow> wait_for_captcha C check_fn elapsed timeout_arg = Some (True, n))
   \<and> ((\<forall>k\<le>Suc n. check_fn k) \<and> (\<forall>k<n. elapsed k \<le> real_of_int t) \<and> elapsed n > real_of_int t
      \<longrightarrow> wait_for_captcha C check_fn elapsed timeout_arg = Some (False, n))
   \<and> (clock_advances elapsed \<longrightarrow>
        (\<exists>v m. wait_for_captcha C check_fn elapsed timeout_arg = Some (v, m)
           \<and> (m = 0 \<or> 2 * (real m - 1) \<le> real_of_int t)
           \<and> (\<not> v \<longrightarrow> (\<forall>k\<le>Suc m. check_fn k) \<and> elapsed m > real_of_int t)
           \<and> (v \<longrightarrow> (\<not> check_fn 0 \<and> m = 0) \<or> ((\<forall>k\<le>m. check_fn k) \<and> \<not> check_fn (Suc m)))))"
proof (intro conjI impI)
  assume "\<not> check_fn 0"
  then show "wait_for_captcha C check_fn elapsed timeout_arg = Some (True, 0)"
    by (simp add: wait_for_captcha_def)
next
  assume a: "(\<forall>k\<le>n. check_fn k) \<and> \<not> check_fn (Suc n) \<and> (\<forall>k<n. elapsed k \<le> real_of_int t)"
  then have polls: "\<forall>j<n. check_fn (Suc (0 + j)) \<and> elapsed (0 + j) \<le> real_of_int t" by simp
  from a have c0: "check_fn 0" by simp
  have "wait_loop check_fn elapsed t 0 = wait_loop check_fn elapsed t (0 + n)"
    by (rule wait_loop_run[OF polls])
  also have "\<dots> = Some (True, n)"
    using a by (simp add: wait_loop_clear)
  finally show "wait_for_captcha C check_fn elapsed timeout_arg = Some (True, n)"
    using c0 assms by (simp add: wait_for_captcha_def)
next
  assume a: "(\<forall>k\<le>Suc n. check_fn k) \<and> (\<forall>k<n. elapsed k \<le> real_of_int t) \<and> elapsed n > real_of_int t"
  then have polls: "\<forall>j<n. check_fn (Suc (0 + j)) \<and> elapsed (0 + j) \<le> real_of_int t" by simp
  from a have c0: "check_fn 0" by simp
  have "wait_loop check_fn elapsed t 0 = wait_loop check_fn elapsed t (0 + n)"
    by (rule wait_loop_run[OF polls])
  also have "\<dots> = Some (False, n)"
    using a by (simp add: wait_loop_timeout)
  finally show "wait_for_captcha C check_fn elapsed timeout_arg = Some (False, n)"
    using c0 assms by (simp add: wait_for_captcha_def)
next
  assume clk: "clock_advances elapsed"
  show "\<exists>v m. wait_for_captcha C check_fn elapsed timeout_arg = Some (v, m)
           \<and> (m = 0 \<or> 2 * (real m - 1) \<le> real_of_int t)
           \<and> (\<not> v \<longrightarrow> (\<forall>k\<le>Suc m. check_fn k) \<and> elapsed m > real_of_int t)
           \<and> (v \<longrightarrow> (\<not> check_fn 0 \<and> m = 0) \<or> ((\<forall>k\<le>m. check_fn k) \<and> \<not> check_fn (Suc m)))"
  proof (cases "check_fn 0")
    case False
    then have "wait_for_captcha C check_fn elapsed timeout_arg = Some (True, 0)"
      by (simp add: wait_for_captcha_def)
    with False show ?thesis by (intro exI[of _ True] exI[of _ 0]) simp
  next
    case True
    from wait_loop_returns[OF clk, of check_fn t 0] obtain v m where
      r: "wait_loop check_fn elapsed t 0 = Some (v, m)"
      and run: "\<forall>j. 0 \<le> j \<and> j < m \<longrightarrow> check_fn (Suc j) \<and> elapsed j \<le> real_of_int t"
      and v: "v \<longleftrightarrow> \<not> check_fn (Suc m)" and late: "\<not> v \<longrightarrow> elapsed m > real_of_int t"
      by (elim exE conjE) blast
    have w: "wait_for_captcha C check_fn elapsed timeout_arg = Some (v, m)"
      using True r assms by (simp add: wait_for_captcha_def)
    have upto: "\<forall>k\<le>m. check_fn k"
    proof (intro allI impI)
      fix k assume "k \<le> m"
      show "check_fn k"
      proof (cases k)
        case 0
        with True show ?thesis by simp
      next
        case (Suc j)
        with \<open>k \<le> m\<close> have "j < m" by simp
        with run Suc show ?thesis by simp
      qed
    qed
    have bound: "m = 0 \<or> 2 * (real m - 1) \<le> real_of_int t"
    proof (cases m)
      case 0
      then show ?thesis by simp
    next
      case (Suc j)
      with run have "elapsed j \<le> real_of_int t" by simp
      moreover have "2 * real j \<le> elapsed j" using clk by (rule clock_lower)
      ultimately show ?thesis using Suc by simp
    qed
    have f: "\<not> v \<longrightarrow> (\<forall>k\<le>Suc m. check_fn k) \<and> elapsed m > real_of_int t"
      using upto v late by (auto simp: le_Suc_eq)
    have tr: "v \<longrightarrow> (\<not> check_fn 0 \<and> m = 0) \<or> ((\<forall>k\<le>m. check_fn k) \<and> \<not> check_fn (Suc m))"
      using upto v by simp
    from w bound f tr show ?thesis by blast
  qed
qed

text \<open>
  The scenario of the specification: the predicate holds at the first check and at three
  polls of the loop, then clears; every poll takes a hundredth of a second and every
  sleep two seconds. With a timeout of 60 seconds the gate returns true after three
  sleeps, six seconds.
\<close>

theorem wait_for_captcha_semantics_witness:
  "wait_for_captcha 300 (\<lambda>k. k \<le> 3) (\<lambda>n. 2 * real n + 1 / 100) (Some 60) = Some (True, 3)
   \<and> clock_advances (\<lambda>n. 2 * real n + 1 / 100)"
proof -
  have t: "(60::int) = (case Some 60 of None \<Rightarrow> 300 | Some t' \<Rightarrow> t')" by simp
  have polls: "\<forall>k\<le>3. (\<lambda>k::nat. k \<le> 3) k" by simp
  have clear: "\<not> (\<lambda>k::nat. k \<le> 3) (Suc 3)" by simp
  have early: "\<forall>k<3. (\<lambda>n. 2 * real n + 1 / 100) k \<le> real_of_int 60"
  proof (intro allI impI)
    fix k :: nat assume "k < 3"
    then have "real k \<le> 3" by simp
    then show "2 * real k + 1 / 100 \<le> real_of_int 60" by simp
  qed
  have clk: "clock_advances (\<lambda>n. 2 * real n + 1 / 100)"
    by (simp add: clock_advances_def)
  from wait_for_captcha_semantics [OF t, where check_fn = "\<lambda>k. k \<le> 3" and elapsed = "\<lambda>n. 2 * real n + 1 / 100" and n = 3]
    polls clear early
  have "wait_for_captcha 300 (\<lambda>k. k \<le> 3) (\<lambda>n. 2 * real n + 1 / 100) (Some 60) = Some (True, 3)"
    by blast
  with clk show ?thesis by simp
qed

text \<open>
  With a timeout of two seconds and a predicate that never clears, on the same clock: the
  second poll finds more than two seconds gone and the gate returns false after one
  sleep.
\<close>

lemma wait_for_captcha_timeout_example:
  "wait_for_captcha 300 (\<lambda>k. True) (\<lambda>n. 2 * real n + 1 / 100) (Some 2) = Some (False, 1)"
proof -
  have "wait_loop (\<lambda>k. True) (\<lambda>n. 2 * real n + 1 / 100) 2 0
      = wait_loop (\<lambda>k. True) (\<lambda>n. 2 * real n + 1 / 100) 2 (Suc 0)"
    by (rule wait_loop_step) simp_all
  also have "\<dots> = Some (False, Suc 0)"
    by (rule wait_loop_timeout) simp_all
  finally show ?thesis by (simp add: wait_for_captcha_def)
qed

section \<open>Properties of the task scheduler\<close>








text \<open>
  Where killing a worker does not kill the caller, and where no attempt times out or
  fails inside \<^verbatim>\<open>proc.wait\<close>, \<^verbatim>\<open>download_page\<close> returns.
\<close>

lemma attempts_returns:
  "\<forall>a\<in>set as. w \<or> (outcome a \<noteq> WaitTimesOut
        \<and> (\<forall>e. outcome a = WaitRaises e \<longrightarrow> e = FileNotFoundError)) \<Longrightarrow>
   fst (attempts w mx d outcome as tr) \<noteq> None"
proof (induction as arbitrary: tr)
  case Nil
  show ?case by simp
next
  case (Cons a as)
  from Cons.prems have rest: "\<forall>a\<in>set as. w \<or> (outcome a \<noteq> WaitTimesOut
        \<and> (\<forall>e. outcome a = WaitRaises e \<longrightarrow> e = FileNotFoundError))"
    and here: "w \<or> (outcome a \<noteq> WaitTimesOut
        \<and> (\<forall>e. outcome a = WaitRaises e \<longrightarrow> e = FileNotFoundError))"
    by auto
  note IH = Cons.IH[OF rest]
  show ?case
  proof (cases "outcome a")
    case (PopenRaises e)
    then show ?thesis using IH by auto
  next
    case WaitTimesOut
    with here have w by simp
    then show ?thesis using IH WaitTimesOut by (auto simp: kill_proc_tree_def)
  next
    case (WaitRaises e)
    with here have "w \<or> e = FileNotFoundError" by simp
    then show ?thesis using IH WaitRaises by (auto simp: kill_proc_tree_def)
  next
    case (Exits rc ex sz)
    then show ?thesis using IH by auto
  qed
qed

lemma do_download_returns:
  assumes "\<forall>outcome. worker task = Inr outcome \<longrightarrow>
     (\<forall>a. w \<or> (outcome a \<noteq> WaitTimesOut
        \<and> (\<forall>e. outcome a = WaitRaises e \<longrightarrow> e = FileNotFoundError)))"
  shows "do_download w mx d worker task \<noteq> ProcessKilled"
proof (cases "worker task")
  case (Inl e)
  then show ?thesis by (simp add: do_download_def)
next
  case (Inr outcome)
  with assms have "\<forall>a\<in>set [1..mx]. w \<or> (outcome a \<noteq> WaitTimesOut
        \<and> (\<forall>e. outcome a = WaitRaises e \<longrightarrow> e = FileNotFoundError))"
    by blast
  then have "fst (attempts w mx d outcome [1..mx] []) \<noteq> None"
    by (rule attempts_returns)
  then show ?thesis
    by (auto simp: do_download_def Inr download_page_def split: option.splits)
qed




lemma collect_example:
  "collect (\<lambda>c. [''u1'', ''u2'']) (\<lambda>c i. i = 0) [''Blog''] ([], [], 0)
     = Inr ([(''Blog'', (1, 0))], [(''Blog'', 1, ''u2'')], 1)"
  by (simp add: bump_def enumerate_eq_zip upt_rec)


text \<open>
  Two tasks on a platform other than Windows, the second of which times out: its
  supervisor ends the process, and \<^verbatim>\<open>run_crawler\<close> returns nothing, the first task's
  success included.
\<close>

lemma run_crawler_killed_example:
  "run_crawler [''Blog''] 2 False 2 1 (\<lambda>c. [''u1'', ''u2'']) (\<lambda>c i. False)
        (\<lambda>t. Inr (\<lambda>a. if fst (snd t) = 1 then WaitTimesOut else Exits 0 True 500))
        [(''Blog'', 0, ''u1''), (''Blog'', 1, ''u2'')]
     = None"
  by code_simp



section \<open>Properties of the pipeline driver\<close>

lemma plain_is_switched: "plain_phase body p st w = switched_phase body p True st w"
  by (simp add: plain_phase_def switched_phase_def)

lemma main_run_phases:
  "main cfg body w = (case load_state (sfile w) of
       Inl e \<Rightarrow> (Inl e, w)
     | Inr st \<Rightarrow> run_phases cfg body PHASES st w)"
  by (simp add: main_def PHASES_def phase0_crawl_def phase1_synth_def phase2_prompts_def
        phase3_history_def phase4_render_def phase5_metadata_def plain_is_switched
        phase_enabled_def and_then_def
      split: sum.split prod.split)

lemma do_mark_ok:
  assumes "do_mark st p d w = (Inr st', w')" and "load_state (sfile w0) = Inr st"
  shows "load_state (sfile w') = Inr st' \<and> is_completed st' p = Inr True
     \<and> (\<forall>q. is_completed st q = Inr True \<longrightarrow> is_completed st' q = Inr True)
     \<and> calls w' = calls w \<and> ext w' = ext w"
proof -
  from assms(1) obtain f where m: "mark_completed st p d = Inr (st', f)" and w': "w' = w\<lparr>sfile := f\<rparr>"
    by (auto simp: do_mark_def split: sum.splits)
  have "loadable st" using assms(2) by (rule load_state_loadable)
  then have "loadable st'" using m by (rule mark_completed_loadable)
  moreover have "f = save_state st'" using m by (rule mark_completed_file)
  ultimately have "load_state (sfile w') = Inr st'"
    by (simp add: w' loadable_def)
  then show ?thesis
    using mark_completed_in[OF m] mark_completed_mono[OF m] by (simp add: w')
qed

lemma do_mark_fail: "do_mark st p d w = (Inl e, w') \<Longrightarrow> w' = w"
  by (auto simp: do_mark_def split: sum.splits)

lemma step_skip:
  "is_completed st p = Inr True \<Longrightarrow> switched_phase body p en st w = (Inr st, w)"
  by (simp add: switched_phase_def)

lemma step_calls:
  "switched_phase body p en st w = (r, w') \<Longrightarrow>
     calls w' = calls w \<or> (calls w' = calls w @ [p] \<and> is_completed st p = Inr False)"
  by (auto simp: switched_phase_def call_body_def do_mark_def Let_def
      split: sum.splits bool.splits if_splits prod.splits)

lemma step_fail:
  "switched_phase body p en st w = (Inl e, w') \<Longrightarrow> sfile w' = sfile w"
  by (auto simp: switched_phase_def call_body_def do_mark_def Let_def
      split: sum.splits bool.splits if_splits prod.splits)

lemma step_ok:
  assumes "switched_phase body p en st w = (Inr st', w')" and "load_state (sfile w) = Inr st"
  shows "load_state (sfile w') = Inr st' \<and> is_completed st' p = Inr True
     \<and> (\<forall>q. is_completed st q = Inr True \<longrightarrow> is_completed st' q = Inr True)"
proof (cases "is_completed st p")
  case (Inl e)
  with assms(1) show ?thesis by (simp add: switched_phase_def)
next
  case (Inr b)
  show ?thesis
  proof (cases b)
    case True
    with Inr assms show ?thesis by (simp add: switched_phase_def)
  next
    case False
    show ?thesis
    proof (cases en)
      case en: False
      with Inr False assms(1)
      have "do_mark st p (JObj [(''skipped'', JBool True)]) w = (Inr st', w')"
        by (simp add: switched_phase_def)
      from do_mark_ok[OF this assms(2)] show ?thesis by simp
    next
      case en: True
      obtain r x where b: "body p (ext w) = (r, x)" by (cases "body p (ext w)")
      with Inr False en assms(1) obtain d where
        "do_mark st p d (w\<lparr>ext := x, calls := calls w @ [p]\<rparr>) = (Inr st', w')"
        by (auto simp: switched_phase_def call_body_def Let_def split: sum.splits)
      from do_mark_ok[OF this assms(2)] show ?thesis by simp
    qed
  qed
qed

lemma run_phases_inv:
  assumes "run_phases cfg body ps st w = (r, w')" and "load_state (sfile w) = Inr st"
    and "distinct ps"
  shows "\<exists>c st'. calls w' = calls w @ c \<and> distinct c \<and> set c \<subseteq> set ps
       \<and> (\<forall>q. is_completed st q = Inr True \<longrightarrow> q \<notin> set c)
       \<and> load_state (sfile w') = Inr st'
       \<and> (\<forall>q. is_completed st q = Inr True \<longrightarrow> is_completed st' q = Inr True)
       \<and> (\<forall>q \<in> set c. is_completed st' q = Inr True \<or> (isl r \<and> q = last c))
       \<and> (\<not> isl r \<longrightarrow> r = Inr st' \<and> (\<forall>q \<in> set ps. is_completed st' q = Inr True))"
  using assms
proof (induction ps arbitrary: st w)
  case Nil
  then show ?case
    by (intro exI[of _ "[]"] exI[of _ st]) auto
next
  case (Cons p ps)
  obtain r1 w1 where s1: "switched_phase body p (phase_enabled cfg p) st w = (r1, w1)"
    by (cases "switched_phase body p (phase_enabled cfg p) st w")
  from step_calls[OF s1] obtain c0 where
    c0: "calls w1 = calls w @ c0" "c0 = [] \<or> (c0 = [p] \<and> is_completed st p = Inr False)"
    by auto
  show ?case
  proof (cases r1)
    case (Inl e)
    with Cons.prems(1) s1 have r: "r = Inl e" "w' = w1" by simp_all
    from s1 Inl have "sfile w1 = sfile w" by (simp add: step_fail)
    with Cons.prems(2) have j: "load_state (sfile w') = Inr st" by (simp add: r)
    show ?thesis
      using c0 j r by (intro exI[of _ c0] exI[of _ st]) auto
  next
    case (Inr st1)
    with Cons.prems(1) s1 have run: "run_phases cfg body ps st1 w1 = (r, w')" by simp
    from step_ok[OF s1[unfolded Inr] Cons.prems(2)] have
      j1: "load_state (sfile w1) = Inr st1" and p1: "is_completed st1 p = Inr True"
      and mono1: "\<And>q. is_completed st q = Inr True \<Longrightarrow> is_completed st1 q = Inr True"
      by auto
    from Cons.prems(3) have dist: "distinct ps" and pps: "p \<notin> set ps" by simp_all
    from Cons.IH[OF run j1 dist] obtain c' st' where
      ih: "calls w' = calls w1 @ c'" "distinct c'" "set c' \<subseteq> set ps"
        "\<And>q. is_completed st1 q = Inr True \<Longrightarrow> q \<notin> set c'"
        "load_state (sfile w') = Inr st'"
        "\<And>q. is_completed st1 q = Inr True \<Longrightarrow> is_completed st' q = Inr True"
        "\<And>q. q \<in> set c' \<Longrightarrow> is_completed st' q = Inr True \<or> (isl r \<and> q = last c')"
        "\<not> isl r \<Longrightarrow> r = Inr st' \<and> (\<forall>q \<in> set ps. is_completed st' q = Inr True)"
      by (elim exE conjE) blast
    have 1: "calls w' = calls w @ (c0 @ c')" using c0(1) ih(1) by simp
    have 2: "distinct (c0 @ c')" using c0(2) ih(2,3) pps by auto
    have 3: "set (c0 @ c') \<subseteq> set (p # ps)" using c0(2) ih(3) by auto
    have 4: "\<forall>q. is_completed st q = Inr True \<longrightarrow> q \<notin> set (c0 @ c')"
      using c0(2) ih(4) mono1 by auto
    have 5: "\<forall>q. is_completed st q = Inr True \<longrightarrow> is_completed st' q = Inr True"
      using mono1 ih(6) by blast
    have p': "is_completed st' p = Inr True" using p1 ih(6) by blast
    have 6: "\<forall>q \<in> set (c0 @ c'). is_completed st' q = Inr True \<or> (isl r \<and> q = last (c0 @ c'))"
    proof
      fix q assume "q \<in> set (c0 @ c')"
      then consider "q = p" | "q \<in> set c'" using c0(2) by auto
      then show "is_completed st' q = Inr True \<or> (isl r \<and> q = last (c0 @ c'))"
      proof cases
        case 1
        with p' show ?thesis by simp
      next
        case 2
        then have "c' \<noteq> []" by auto
        with ih(7)[OF 2] show ?thesis by auto
      qed
    qed
    have 7: "\<not> isl r \<longrightarrow> r = Inr st' \<and> (\<forall>q \<in> set (p # ps). is_completed st' q = Inr True)"
      using ih(8) p' by auto
    show ?thesis
      using 1 2 3 4 ih(5) 5 6 7 by (intro exI[of _ "c0 @ c'"] exI[of _ st']) blast
  qed
qed

lemma run_phases_all_done:
  "\<forall>q \<in> set ps. is_completed st q = Inr True \<Longrightarrow> run_phases cfg body ps st w = (Inr st, w)"
  by (induction ps) (simp_all add: step_skip)

lemma distinct_PHASES: "distinct PHASES"
  by (simp add: PHASES_def)

text \<open>
  C1, amended. For two runs of the driver in a row, from any world: each run calls each
  phase body at most once; a phase that the state file records as completed when the
  first run ends is not called by the second run; a phase body is called in both runs
  only if the first run raised and that phase was the last one it called; and if the
  first run completed, the second run calls no body and changes nothing. A phase that is
  listed in \<^verbatim>\<open>completed_phases\<close> is skipped with no body call and no change of state.
\<close>

theorem run_twice_resume:
  assumes "run_twice cfg body w = ((r1, w1), (r2, w2))"
  shows "\<exists>c1 c2. calls w1 = calls w @ c1 \<and> calls w2 = calls w1 @ c2
     \<and> distinct c1 \<and> distinct c2 \<and> set c1 \<subseteq> set PHASES \<and> set c2 \<subseteq> set PHASES
     \<and> (\<forall>p. recorded (sfile w1) p \<longrightarrow> p \<notin> set c2)
     \<and> (\<forall>p \<in> set c1. p \<in> set c2 \<longrightarrow> isl r1 \<and> p = last c1)
     \<and> (\<not> isl r1 \<longrightarrow> c2 = [] \<and> w2 = w1)
     \<and> (\<forall>st p en w0. is_completed st p = Inr True \<longrightarrow>
           switched_phase body p en st w0 = (Inr st, w0) \<and> plain_phase body p st w0 = (Inr st, w0))"
proof -
  from assms have m1: "main cfg body w = (r1, w1)"
    by (auto simp: run_twice_def Let_def)
  from assms have m2: "main cfg body w1 = (r2, w2)"
    by (auto simp: run_twice_def Let_def)
  have skip: "\<forall>st p en w0. is_completed st p = Inr True \<longrightarrow>
           switched_phase body p en st w0 = (Inr st, w0) \<and> plain_phase body p st w0 = (Inr st, w0)"
    by (simp add: plain_is_switched step_skip)
  show ?thesis
  proof (cases "load_state (sfile w)")
    case (Inl e)
    with m1 have 1: "r1 = Inl e" "w1 = w" by (simp_all add: main_run_phases)
    with m2 Inl have 2: "w2 = w" by (simp add: main_run_phases)
    have nr: "\<And>p. \<not> recorded (sfile w1) p" by (simp add: recorded_def 1 Inl)
    show ?thesis
      using 1 2 nr skip by (intro exI[of _ "[]"]) simp
  next
    case (Inr st0)
    with m1 have run1: "run_phases cfg body PHASES st0 w = (r1, w1)"
      by (simp add: main_run_phases)
    from run_phases_inv[OF run1 Inr distinct_PHASES] obtain c1 st' where
      a: "calls w1 = calls w @ c1" "distinct c1" "set c1 \<subseteq> set PHASES"
         "load_state (sfile w1) = Inr st'"
         "\<And>q. q \<in> set c1 \<Longrightarrow> is_completed st' q = Inr True \<or> (isl r1 \<and> q = last c1)"
         "\<not> isl r1 \<Longrightarrow> \<forall>q \<in> set PHASES. is_completed st' q = Inr True"
      by (elim exE conjE) blast
    from m2 a(4) have run2: "run_phases cfg body PHASES st' w1 = (r2, w2)"
      by (simp add: main_run_phases)
    from run_phases_inv[OF run2 a(4) distinct_PHASES] obtain c2 where
      b: "calls w2 = calls w1 @ c2" "distinct c2" "set c2 \<subseteq> set PHASES"
         "\<And>q. is_completed st' q = Inr True \<Longrightarrow> q \<notin> set c2"
      by (elim exE conjE) blast
    have rec: "\<forall>p. recorded (sfile w1) p \<longrightarrow> p \<notin> set c2"
      using b(4) by (simp add: recorded_def a(4))
    have twice: "\<forall>p \<in> set c1. p \<in> set c2 \<longrightarrow> isl r1 \<and> p = last c1"
      using a(5) b(4) by blast
    have fin: "\<not> isl r1 \<longrightarrow> c2 = [] \<and> w2 = w1"
    proof
      assume "\<not> isl r1"
      from a(6)[OF this] have "run_phases cfg body PHASES st' w1 = (Inr st', w1)"
        by (rule run_phases_all_done)
      with run2 have "w2 = w1" by simp
      with b(1) show "c2 = [] \<and> w2 = w1" by simp
    qed
    show ?thesis
      using a(1,2,3) b(1,2,3) rec twice fin skip
      by (intro exI[of _ c1] exI[of _ c2]) blast
  qed
qed

text \<open>
  C1 (idempotent resume), as stated, fails when a phase body raises: the first run stops in
  that phase without recording it, and the second run calls the same body again.
\<close>

theorem run_twice_body_raises_twice:
  "calls (snd (snd (run_twice \<lparr>RUN_CRAWLER = True, RUN_SYNTH_GEN = False\<rparr>
        (\<lambda>p x. (Inl OtherException, x)) \<lparr>sfile = None, ext = (), calls = []\<rparr>)))
     = [''phase0_crawl'', ''phase0_crawl'']"
  by code_simp

lemma run_twice_example_completes:
  "\<not> isl (fst (fst (run_twice \<lparr>RUN_CRAWLER = False, RUN_SYNTH_GEN = False\<rparr>
        (\<lambda>p x. (Inr (JObj [(''count'', JNum 0)]), x)) \<lparr>sfile = None, ext = (), calls = []\<rparr>)))"
  by code_simp

lemma run_twice_example_calls:
  "calls (snd (fst (run_twice \<lparr>RUN_CRAWLER = False, RUN_SYNTH_GEN = False\<rparr>
        (\<lambda>p x. (Inr (JObj [(''count'', JNum 0)]), x)) \<lparr>sfile = None, ext = (), calls = []\<rparr>)))
    = [''phase2_prompts'', ''phase3_history'', ''phase4_render'', ''phase5_metadata'']"
  by code_simp

text \<open>
  Both switches off and bodies that succeed: the first run calls the bodies of phases 2 to
  5 and completes, the second run calls none and leaves the world as it found it.
\<close>

theorem run_twice_resume_witness:
  "snd (snd (run_twice \<lparr>RUN_CRAWLER = False, RUN_SYNTH_GEN = False\<rparr>
        (\<lambda>p x. (Inr (JObj [(''count'', JNum 0)]), x)) \<lparr>sfile = None, ext = (), calls = []\<rparr>))
   = snd (fst (run_twice \<lparr>RUN_CRAWLER = False, RUN_SYNTH_GEN = False\<rparr>
        (\<lambda>p x. (Inr (JObj [(''count'', JNum 0)]), x)) \<lparr>sfile = None, ext = (), calls = []\<rparr>))
   \<and> calls (snd (snd (run_twice \<lparr>RUN_CRAWLER = False, RUN_SYNTH_GEN = False\<rparr>
        (\<lambda>p x. (Inr (JObj [(''count'', JNum 0)]), x)) \<lparr>sfile = None, ext = (), calls = []\<rparr>)))
    = [''phase2_prompts'', ''phase3_history'', ''phase4_render'', ''phase5_metadata'']"
proof -
  let ?X = "run_twice \<lparr>RUN_CRAWLER = False, RUN_SYNTH_GEN = False\<rparr>
        (\<lambda>p x. (Inr (JObj [(''count'', JNum 0)]), x)) \<lparr>sfile = None, ext = (), calls = []\<rparr>"
  have x: "?X = ((fst (fst ?X), snd (fst ?X)), (fst (snd ?X), snd (snd ?X)))" by simp
  from run_twice_resume [OF x] run_twice_example_completes have "snd (snd ?X) = snd (fst ?X)" by blast
  then show ?thesis using run_twice_example_calls by simp
qed

end
